theory Spec2Isabelle
  imports Complex_Main "HOL-Library.Sublist"
begin

section \<open>Strings\<close>

text \<open>
  A JavaScript string is a sequence of UTF-16 code units. For the notes, their bodies
  and the link markers the model is \<^typ>\<open>string\<close>: a list of \<^typ>\<open>char\<close>, read as the
  code units U+0000 to U+00FF (Basic Latin and Latin-1 Supplement), with the case mapping
  of JavaScript restricted to that range, which is closed under \<open>toLowerCase\<close>. The
  derivation of file names, whose character class reaches beyond that range, is modelled
  on all code units further below.
\<close>

definition code_unit :: "char \<Rightarrow> nat" where
  "code_unit c = of_char c"

text \<open>
  \<^verbatim>\<open>String.prototype.toLowerCase\<close>: A-Z and U+00C0 to U+00DE (the multiplication sign
  U+00D7 apart) move up by 32; every other code unit of the range is its own lower case.
\<close>

definition lower_char :: "char \<Rightarrow> char" where
  "lower_char c =
     (let k = code_unit c in
        if (65 \<le> k \<and> k \<le> 90) \<or> (192 \<le> k \<and> k \<le> 222 \<and> k \<noteq> 215)
        then char_of (k + 32) else c)"

definition toLowerCase :: "string \<Rightarrow> string" where
  "toLowerCase s = map lower_char s"

subsection \<open>File names\<close>

text \<open>
  For \<^verbatim>\<open>getFilename\<close> a title is a list of UTF-16 code units, each a natural number
  below 65536; \<open>units\<close> reads a string of the model above as such a list.
\<close>

definition units :: "string \<Rightarrow> nat list" where
  "units s = map of_char s"

text \<open>
  The case mappings of JavaScript follow the Unicode tables, which are not part of the
  program. On the code units below 128 they are known: \<^verbatim>\<open>a-z\<close> and \<^verbatim>\<open>A-Z\<close> map to each
  other and nothing else moves. Beyond, they are parameters: \<open>toUpper ch\<close> is
  \<^verbatim>\<open>toUpperCase\<close> of the string of the one code unit \<open>ch\<close>, and \<open>lower s\<close> is
  \<^verbatim>\<open>toLowerCase\<close> of a string \<open>s\<close> with a code unit from 128 on (it may change the
  length: U+0130 becomes two code units).
\<close>

definition ascii_upper :: "nat \<Rightarrow> nat" where
  "ascii_upper c = (if 97 \<le> c \<and> c \<le> 122 then c - 32 else c)"

definition ascii_lower :: "nat \<Rightarrow> nat" where
  "ascii_lower c = (if 65 \<le> c \<and> c \<le> 90 then c + 32 else c)"

definition toLowerCase16 :: "(nat list \<Rightarrow> nat list) \<Rightarrow> nat list \<Rightarrow> nat list" where
  "toLowerCase16 lower s = (if list_all (\<lambda>c. c < 128) s then map ascii_lower s else lower s)"

text \<open>
  \<^verbatim>\<open>Canonicalize(ch)\<close> of a pattern with the flag \<^verbatim>\<open>i\<close> and without the flag \<^verbatim>\<open>u\<close>:
  the upper case of the code unit when that is a single code unit, except that a code
  unit from 128 on is never mapped below 128.
\<close>

definition Canonicalize :: "(nat \<Rightarrow> nat list) \<Rightarrow> nat \<Rightarrow> nat" where
  "Canonicalize toUpper ch =
     (if ch < 128 then ascii_upper ch
      else (case toUpper ch of
              [cu] \<Rightarrow> if cu < 128 then ch else cu
            | _ \<Rightarrow> ch))"

text \<open>
  The class \<^verbatim>\<open>[a-z0-9\u00C0-\u024F\u1E00-\u1EFF]\<close> under the flag \<^verbatim>\<open>i\<close>: a code unit
  belongs to it when its canonical form is that of a member of one of the four ranges.
\<close>

definition class_members :: "nat list" where
  "class_members = [97..<123] @ [48..<58] @ [192..<592] @ [7680..<7936]"

definition word_class :: "(nat \<Rightarrow> nat list) \<Rightarrow> nat \<Rightarrow> bool" where
  "word_class toUpper ch =
     list_ex (\<lambda>m. Canonicalize toUpper m = Canonicalize toUpper ch) class_members"

text \<open>
  \<^verbatim>\<open>s.replace(/[class]/g, r)\<close> for a class of single code units: every member of the
  class is replaced, one match per code unit.
\<close>

fun replace_class :: "('a \<Rightarrow> bool) \<Rightarrow> 'a list \<Rightarrow> 'a list \<Rightarrow> 'a list" where
  "replace_class P r [] = []"
| "replace_class P r (c # cs) =
     (if P c then r @ replace_class P r cs else c # replace_class P r cs)"

text \<open>
  \<^verbatim>\<open>
  const getFilename = (title: string) => {
      const safeTitle = title.replace(/[^a-z0-9\u00C0-\u024F\u1E00-\u1EFF]/gi, '_')
                             .toLowerCase() || 'untitled';
      return `${safeTitle}.md`;
  };
  \<close>
\<close>

definition getFilename :: "(nat \<Rightarrow> nat list) \<Rightarrow> (nat list \<Rightarrow> nat list) \<Rightarrow> nat list \<Rightarrow> nat list" where
  "getFilename toUpper lower t =
     (let s = toLowerCase16 lower (replace_class (\<lambda>c. \<not> word_class toUpper c) (units ''_'') t);
          safeTitle = (if s = [] then units ''untitled'' else s)
      in safeTitle @ units ''.md'')"

text \<open>
  The slug in the words of the interface description: the title in lower case, each
  maximal run of characters outside the class replaced by a single separator. The flag
  says whether the previous character already belonged to a run.
\<close>

fun collapse_runs :: "('a \<Rightarrow> bool) \<Rightarrow> 'a \<Rightarrow> bool \<Rightarrow> 'a list \<Rightarrow> 'a list" where
  "collapse_runs keep sep inRun [] = []"
| "collapse_runs keep sep inRun (c # cs) =
     (if keep c then c # collapse_runs keep sep False cs
      else if inRun then collapse_runs keep sep True cs
      else sep # collapse_runs keep sep True cs)"

definition spec_filename :: "(nat \<Rightarrow> nat list) \<Rightarrow> (nat list \<Rightarrow> nat list) \<Rightarrow> nat list \<Rightarrow> nat list" where
  "spec_filename toUpper lower t =
     collapse_runs (word_class toUpper) 95 False (toLowerCase16 lower t) @ units ''.md''"

section \<open>Notes and the link extractor\<close>

text \<open>
  \<^verbatim>\<open>interface Note\<close> of \<^verbatim>\<open>types.ts\<close>. The field \<^verbatim>\<open>id\<close> is \<open>id_n\<close> here;
  \<^verbatim>\<open>parentId: string | null\<close> and the optional fields are options, \<open>None\<close> standing
  for \<^verbatim>\<open>null\<close> and for \<^verbatim>\<open>undefined\<close>.
\<close>

record Note =
  id_n :: string
  title :: string
  content :: string
  createdAt :: string
  updatedAt :: string
  parentId :: "string option"
  expanded :: bool
  lastSavedTitle :: "string option"
  isFavorite :: "bool option"

record GraphLink =
  source :: string
  target :: string

text \<open>The code units the regular-expression dot does not match.\<close>

definition is_line_terminator :: "char \<Rightarrow> bool" where
  "is_line_terminator c = (c = CHR 0x0A \<or> c = CHR 0x0D)"

text \<open>
  The tail \<^verbatim>\<open>(.*?)\]\]\<close> of the marker pattern, run on the text after an opening
  \<^verbatim>\<open>[[\<close>: the shortest run of code units other than line terminators that is
  followed by \<^verbatim>\<open>]]\<close>, with the text after the match.
\<close>

fun scan_close :: "string \<Rightarrow> (string \<times> string) option" where
  "scan_close [] = None"
| "scan_close (c # cs) =
     (if prefix '']]'' (c # cs) then Some ([], tl cs)
      else if is_line_terminator c then None
      else (case scan_close cs of
              None \<Rightarrow> None
            | Some (x, r) \<Rightarrow> Some (c # x, r)))"

lemma scan_close_shorter: "scan_close s = Some (x, r) \<Longrightarrow> length r < length s"
  by (induction s arbitrary: x r) (auto split: if_splits option.splits)

text \<open>
  The loop \<^verbatim>\<open>while ((match = regex.exec(content)) !== null)\<close> over
  \<^verbatim>\<open>/\[\[(.*?)\]\]/g\<close>: the captured groups of the successive leftmost matches, each
  search starting where the previous match ended.
\<close>

function markers :: "string \<Rightarrow> string list" where
  "markers [] = []"
| "markers (c # cs) =
     (if prefix ''[['' (c # cs)
      then (case scan_close (tl cs) of
              Some (x, r) \<Rightarrow> x # markers r
            | None \<Rightarrow> markers cs)
      else markers cs)"
  by pat_completeness auto
termination
proof (relation "measure length")
  fix c cs p x r
  assume "scan_close (tl cs) = Some p" and "(x, r) = p"
  then have "length r < length (tl cs)"
    using scan_close_shorter [of "tl cs" x r] by simp
  then show "(r, c # cs) \<in> measure length"
    by (cases cs) auto
qed auto

text \<open>
  \<^verbatim>\<open>
  notes.forEach((sourceNote) => {
    const regex = /\[\[(.*?)\]\]/g;
    let match;
    while ((match = regex.exec(sourceNote.content)) !== null) {
      const targetTitle = match[1];
      const targetNote = notes.find((n) => n.title.toLowerCase() === targetTitle.toLowerCase());
      if (targetNote && targetNote.id !== sourceNote.id) {
        newLinks.push({ source: sourceNote.id, target: targetNote.id });
      }
    }
  });
  \<close>
\<close>

definition linksFrom :: "Note list \<Rightarrow> Note \<Rightarrow> GraphLink list" where
  "linksFrom notes sourceNote =
     concat (map (\<lambda>targetTitle.
        (case find (\<lambda>n. toLowerCase (title n) = toLowerCase targetTitle) notes of
           None \<Rightarrow> []
         | Some targetNote \<Rightarrow>
             if id_n targetNote \<noteq> id_n sourceNote
             then [\<lparr>source = id_n sourceNote, target = id_n targetNote\<rparr>] else []))
       (markers (content sourceNote)))"

definition extractLinks :: "Note list \<Rightarrow> GraphLink list" where
  "extractLinks notes = concat (map (linksFrom notes) notes)"

text \<open>
  The link relation in the words of the extractor's contract: the body of \<open>S\<close> has a
  marker whose text equals the title of \<open>T\<close> up to letter case, and \<open>T\<close> is another note.
\<close>

definition claimed_link :: "Note \<Rightarrow> Note \<Rightarrow> bool" where
  "claimed_link S T =
     (list_ex (\<lambda>X. toLowerCase (title T) = toLowerCase X) (markers (content S)) \<and>
      id_n T \<noteq> id_n S)"

text \<open>A note with the given identifier, title and body, and fixed other fields.\<close>

definition mk_note :: "string \<Rightarrow> string \<Rightarrow> string \<Rightarrow> Note" where
  "mk_note i t c =
     \<lparr>id_n = i, title = t, content = c,
      createdAt = ''2024-01-01T00:00:00.000Z'', updatedAt = ''2024-01-01T00:00:00.000Z'',
      parentId = None, expanded = True, lastSavedTitle = None, isFavorite = None\<rparr>"

definition example_collection :: "Note list" where
  "example_collection =
     [mk_note ''1'' ''Alpha'' ''link to [[Beta]]'', mk_note ''2'' ''Beta'' '''']"

section \<open>The frontmatter codec\<close>

definition LF :: char where
  "LF = CHR 0x0A"

text \<open>
  \<^verbatim>\<open>
  const stringifyFrontmatter = (note: Note): string => {
    return `---
  id: ${note.id}
  title: ${note.title}
  created: ${note.createdAt}
  updated: ${note.updatedAt}
  parentId: ${note.parentId || 'null'}
  isFavorite: ${note.isFavorite || false}
  ---
  ${note.content}`;
  };
  \<close>
  The empty string is falsy, so an empty \<^verbatim>\<open>parentId\<close> is written as \<^verbatim>\<open>null\<close>; an unset
  \<^verbatim>\<open>isFavorite\<close> is written as \<^verbatim>\<open>false\<close>.
\<close>

definition stringifyFrontmatter :: "Note \<Rightarrow> string" where
  "stringifyFrontmatter note =
     ''---'' @ [LF] @
     ''id: '' @ id_n note @ [LF] @
     ''title: '' @ title note @ [LF] @
     ''created: '' @ createdAt note @ [LF] @
     ''updated: '' @ updatedAt note @ [LF] @
     ''parentId: '' @ (case parentId note of
                         None \<Rightarrow> ''null''
                       | Some p \<Rightarrow> if p = [] then ''null'' else p) @ [LF] @
     ''isFavorite: '' @ (if isFavorite note = Some True then ''true'' else ''false'') @ [LF] @
     ''---'' @ [LF] @
     content note"

text \<open>
  The values the decoder stores in its \<^verbatim>\<open>meta: any\<close> object: a string, a boolean or
  \<^verbatim>\<open>null\<close>. A property that was never set is \<open>None\<close>.
\<close>

datatype jsval = JStr string | JBool bool | JNull

record Meta =
  id_m :: "jsval option"
  title_m :: "jsval option"
  createdAt_m :: "jsval option"
  updatedAt_m :: "jsval option"
  parentId_m :: "jsval option"
  isFavorite_m :: "jsval option"

record Frontmatter =
  meta :: Meta
  content_m :: string

text \<open>
  The lazy group and the closing delimiter of
  \<^verbatim>\<open>/^---\n([\s\S]*?)\n---\n([\s\S]*)$/\<close>, run on the text after the opening
  \<^verbatim>\<open>---\n\<close>: the shortest prefix that is followed by \<^verbatim>\<open>\n---\n\<close>, and the
  text after that delimiter.
\<close>

fun find_delim :: "string \<Rightarrow> (string \<times> string) option" where
  "find_delim [] = None"
| "find_delim (c # cs) =
     (if prefix ([LF] @ ''---'' @ [LF]) (c # cs) then Some ([], drop 5 (c # cs))
      else (case find_delim cs of
              None \<Rightarrow> None
            | Some (y, r) \<Rightarrow> Some (c # y, r)))"

definition match_frontmatter :: "string \<Rightarrow> (string \<times> string) option" where
  "match_frontmatter text =
     (if prefix (''---'' @ [LF]) text then find_delim (drop 4 text) else None)"

text \<open>\<^verbatim>\<open>s.split(c)\<close> for a separator of one code unit, and \<^verbatim>\<open>parts.join(c)\<close>.\<close>

fun split_on :: "char \<Rightarrow> string \<Rightarrow> string list" where
  "split_on c [] = [[]]"
| "split_on c (x # xs) =
     (if x = c then [] # split_on c xs
      else (case split_on c xs of
              [] \<Rightarrow> [[x]]
            | y # ys \<Rightarrow> (x # y) # ys))"

fun join :: "char \<Rightarrow> string list \<Rightarrow> string" where
  "join c [] = []"
| "join c [x] = x"
| "join c (x # y # ys) = x @ c # join c (y # ys)"

text \<open>
  \<^verbatim>\<open>String.prototype.trim\<close>: the white space and line terminators of the range are
  tab, line feed, vertical tab, form feed, carriage return, space and no-break space.
\<close>

definition is_space :: "char \<Rightarrow> bool" where
  "is_space c = (c \<in> set [CHR 0x09, CHR 0x0A, CHR 0x0B, CHR 0x0C, CHR 0x0D, CHR 0x20, CHR 0xA0])"

definition trim :: "string \<Rightarrow> string" where
  "trim s = rev (dropWhile is_space (rev (dropWhile is_space s)))"

text \<open>
  \<^verbatim>\<open>
  yaml.split('\n').forEach(line => {
    const [key, ...rest] = line.split(':');
    if (key && rest) {
      const val = rest.join(':').trim();
      if (val === 'true') meta[key.trim()] = true;
      else if (val === 'false') meta[key.trim()] = false;
      else if (val !== 'null') meta[key.trim()] = val;
      else meta[key.trim()] = null;
    }
  });
  \<close>
  \<^verbatim>\<open>rest\<close> is an array and so always truthy; the test is on \<^verbatim>\<open>key\<close> alone.
\<close>

definition parse_line :: "(string \<rightharpoonup> jsval) \<Rightarrow> string \<Rightarrow> (string \<rightharpoonup> jsval)" where
  "parse_line m line =
     (case split_on CHR '':'' line of
        [] \<Rightarrow> m
      | key # rest \<Rightarrow>
          if key \<noteq> [] then
            (let val = trim (join CHR '':'' rest) in
               if val = ''true'' then m(trim key \<mapsto> JBool True)
               else if val = ''false'' then m(trim key \<mapsto> JBool False)
               else if val \<noteq> ''null'' then m(trim key \<mapsto> JStr val)
               else m(trim key \<mapsto> JNull))
          else m)"

definition parseFrontmatter :: "string \<Rightarrow> Frontmatter" where
  "parseFrontmatter text =
     (case match_frontmatter text of
        None \<Rightarrow>
          \<lparr>meta = \<lparr>id_m = None, title_m = None, createdAt_m = None, updatedAt_m = None,
                   parentId_m = None, isFavorite_m = None\<rparr>,
           content_m = text\<rparr>
      | Some (yaml, body) \<Rightarrow>
          (let m = foldl parse_line Map.empty (split_on LF yaml) in
             \<lparr>meta = \<lparr>id_m = m ''id'', title_m = m ''title'', createdAt_m = m ''created'',
                      updatedAt_m = m ''updated'', parentId_m = m ''parentId'',
                      isFavorite_m = m ''isFavorite''\<rparr>,
              content_m = body\<rparr>))"

text \<open>
  A field value that the codec carries unchanged: no line feed in it, no white space at
  either end, and not one of the three literals the decoder reads as a boolean or null.
\<close>

definition plain :: "string \<Rightarrow> bool" where
  "plain s = (LF \<notin> set s \<and> trim s = s \<and> s \<noteq> ''true'' \<and> s \<noteq> ''false'' \<and> s \<noteq> ''null'')"

text \<open>The condition of the round-trip property on the body, in its words.\<close>

definition no_delimiter_line :: "string \<Rightarrow> bool" where
  "no_delimiter_line body = list_all (\<lambda>l. \<not> prefix ''---'' l) (split_on LF body)"

section \<open>Merging a loaded batch into the collection\<close>

text \<open>
  \<^verbatim>\<open>xs.sort((a, b) => new Date(b.updatedAt).getTime() - new Date(a.updatedAt).getTime())\<close>:
  a stable sort, newest first. The clock reading of a timestamp string is the parameter
  \<open>ts\<close>; timestamps that do not parse are outside the model.
\<close>

definition sortNotes :: "(string \<Rightarrow> int) \<Rightarrow> Note list \<Rightarrow> Note list" where
  "sortNotes ts xs = sort_key (\<lambda>n. - ts (updatedAt n)) xs"

text \<open>\<^verbatim>\<open>Array.prototype.findIndex\<close>, with \<open>None\<close> for \<^verbatim>\<open>-1\<close>.\<close>

fun findIndex :: "('a \<Rightarrow> bool) \<Rightarrow> 'a list \<Rightarrow> nat option" where
  "findIndex P [] = None"
| "findIndex P (x # xs) = (if P x then Some 0 else map_option Suc (findIndex P xs))"

text \<open>Truthiness of an optional string: \<^verbatim>\<open>null\<close>, \<^verbatim>\<open>undefined\<close> and \<^verbatim>\<open>''\<close> are falsy.\<close>

definition truthy :: "string option \<Rightarrow> bool" where
  "truthy v = (case v of None \<Rightarrow> False | Some s \<Rightarrow> s \<noteq> [])"

text \<open>
  The body of \<^verbatim>\<open>newNotes.forEach(n => ...)\<close> in the merge branch of
  \<^verbatim>\<open>loadFromVault\<close>:
  \<^verbatim>\<open>
  const existingIndex = combined.findIndex(e => e.id === n.id);
  if (existingIndex === -1) {
      const existingByTitle = combined.findIndex(e => e.title === n.title && !e.parentId);
      if (existingByTitle !== -1 && !combined[existingByTitle].lastSavedTitle) {
          combined[existingByTitle] = { ...n, id: combined[existingByTitle].id };
      } else {
          combined.push(n);
      }
  }
  \<close>
\<close>

definition merge_note :: "Note list \<Rightarrow> Note \<Rightarrow> Note list" where
  "merge_note combined n =
     (case findIndex (\<lambda>e. id_n e = id_n n) combined of
        Some existingIndex \<Rightarrow> combined
      | None \<Rightarrow>
          (case findIndex (\<lambda>e. title e = title n \<and> \<not> truthy (parentId e)) combined of
             Some existingByTitle \<Rightarrow>
               if \<not> truthy (lastSavedTitle (combined ! existingByTitle))
               then combined[existingByTitle := n\<lparr>id_n := id_n (combined ! existingByTitle)\<rparr>]
               else combined @ [n]
           | None \<Rightarrow> combined @ [n]))"

text \<open>
  The note collection after \<^verbatim>\<open>loadFromVault(handle, replace)\<close> has read the batch
  \<open>loaded\<close>. The batch is sorted first. In replace mode the collection becomes the batch,
  or the seed note \<open>initial\<close> when the batch is empty; in merge mode an empty batch
  leaves the collection as it is, and a non-empty one is folded in and the result sorted.
\<close>

definition loadedNotes :: "(string \<Rightarrow> int) \<Rightarrow> Note \<Rightarrow> bool \<Rightarrow> Note list \<Rightarrow> Note list \<Rightarrow> Note list" where
  "loadedNotes ts initial replace prev loaded =
     (let newNotes = sortNotes ts loaded in
        if replace then (if newNotes \<noteq> [] then newNotes else [initial])
        else if newNotes \<noteq> [] then sortNotes ts (foldl merge_note prev newNotes)
        else prev)"

text \<open>
  An in-memory note that was never written to the vault, and the note read from a file
  \<^verbatim>\<open>idea.md\<close> that has the same title and no identifier in its header.
\<close>

definition unsaved_note :: Note where
  "unsaved_note = mk_note ''k3x9'' ''Idea'' ''draft''"

definition file_note :: Note where
  "file_note = (mk_note ''idea.md'' ''Idea'' ''text on disk'')\<lparr>lastSavedTitle := Some ''Idea''\<rparr>"

section \<open>The application state and note updates\<close>

text \<open>
  \<^verbatim>\<open>Partial<Note>\<close>, the argument \<^verbatim>\<open>updates\<close> of \<^verbatim>\<open>updateNote\<close>: every field of a note,
  optional. A property that is present with the value \<^verbatim>\<open>undefined\<close> is not told apart
  from an absent one; no caller passes one.
\<close>

record Updates =
  u_id :: "string option"
  u_title :: "string option"
  u_content :: "string option"
  u_createdAt :: "string option"
  u_updatedAt :: "string option"
  u_parentId :: "string option option"
  u_expanded :: "bool option"
  u_lastSavedTitle :: "string option"
  u_isFavorite :: "bool option"

text \<open>\<^verbatim>\<open>{ ...noteToUpdate, ...updates, updatedAt: getISODate() }\<close>\<close>

definition applyUpdates :: "Note \<Rightarrow> Updates \<Rightarrow> string \<Rightarrow> Note" where
  "applyUpdates n u now =
     \<lparr>id_n = (case u_id u of None \<Rightarrow> id_n n | Some v \<Rightarrow> v),
      title = (case u_title u of None \<Rightarrow> title n | Some v \<Rightarrow> v),
      content = (case u_content u of None \<Rightarrow> content n | Some v \<Rightarrow> v),
      createdAt = (case u_createdAt u of None \<Rightarrow> createdAt n | Some v \<Rightarrow> v),
      updatedAt = now,
      parentId = (case u_parentId u of None \<Rightarrow> parentId n | Some v \<Rightarrow> v),
      expanded = (case u_expanded u of None \<Rightarrow> expanded n | Some v \<Rightarrow> v),
      lastSavedTitle = (case u_lastSavedTitle u of None \<Rightarrow> lastSavedTitle n | Some v \<Rightarrow> Some v),
      isFavorite = (case u_isFavorite u of None \<Rightarrow> isFavorite n | Some v \<Rightarrow> Some v)\<rparr>"

text \<open>
  \<^verbatim>\<open>setNotes(f)\<close> does not run \<open>f\<close>: React puts the updater in a queue and runs the
  queued updaters, oldest first, when it next renders the component (as an optimisation
  it may run the first updater of an empty queue at once). A queued updater is either the
  one built by \<^verbatim>\<open>updateNote\<close>, which reads and sets timers and is kept with the
  arguments it closes over (\<^verbatim>\<open>vaultHandle\<close>, \<^verbatim>\<open>id\<close>, \<^verbatim>\<open>updates\<close>, \<^verbatim>\<open>forceSave\<close>), or
  a function of the note collection alone.
\<close>

datatype Queued =
  QUpdate bool string Updates bool
| QNotes "Note list \<Rightarrow> Note list"

text \<open>
  The state the vault logic works on: the note collection (\<^verbatim>\<open>notes\<close> of
  \<^verbatim>\<open>useState\<close>, here \<open>notes_st\<close>); the object \<^verbatim>\<open>saveTimeoutRef.current\<close>, from note identifiers to timer
  handles, as an association list; the timers that are set and have neither fired nor been
  cleared, each with its handle, the key it was stored under and the note its callback
  hands to \<^verbatim>\<open>writeFileToDisk\<close>; the next fresh handle (handles are positive integers);
  the notes handed to \<^verbatim>\<open>writeFileToDisk\<close> so far, in call order; and the updaters
  passed to \<^verbatim>\<open>setNotes\<close> that have not run yet, oldest first.
\<close>

record App =
  notes_st :: "Note list"
  saveTimeoutRef :: "(string \<times> nat) list"
  timers :: "(nat \<times> string \<times> Note) list"
  nextTimer :: nat
  written :: "Note list"
  queue :: "Queued list"

definition setNotes :: "Queued \<Rightarrow> App \<Rightarrow> App" where
  "setNotes q st = st\<lparr>queue := queue st @ [q]\<rparr>"

definition clearTimeout :: "nat \<Rightarrow> App \<Rightarrow> App" where
  "clearTimeout h st = st\<lparr>timers := filter (\<lambda>(h', k, p). h' \<noteq> h) (timers st)\<rparr>"

text \<open>\<^verbatim>\<open>if (saveTimeoutRef.current[k]) clearTimeout(saveTimeoutRef.current[k]);\<close>\<close>

definition cancelPending :: "string \<Rightarrow> App \<Rightarrow> App" where
  "cancelPending k st =
     (case map_of (saveTimeoutRef st) k of
        None \<Rightarrow> st
      | Some h \<Rightarrow> if h \<noteq> 0 then clearTimeout h st else st)"

text \<open>\<^verbatim>\<open>saveTimeoutRef.current[k] = setTimeout(() => writeFileToDisk(p), 1000);\<close>\<close>

definition schedule :: "string \<Rightarrow> Note \<Rightarrow> App \<Rightarrow> App" where
  "schedule k p st =
     st\<lparr>timers := timers st @ [(nextTimer st, k, p)],
        saveTimeoutRef := (k, nextTimer st) # filter (\<lambda>(k', h). k' \<noteq> k) (saveTimeoutRef st),
        nextTimer := Suc (nextTimer st)\<rparr>"

text \<open>
  A call \<^verbatim>\<open>writeFileToDisk(note)\<close> with a vault connected: the note is handed to the
  vault. What follows the awaited write, \<^verbatim>\<open>setNotes(prev => prev.map(n => n.id === note.id
  ? { ...n, lastSavedTitle: note.title } : n))\<close> when the title on disk has changed, is the
  later event \<open>writeCompleted\<close>.
\<close>

definition writeFileToDisk :: "Note \<Rightarrow> App \<Rightarrow> App" where
  "writeFileToDisk note st = st\<lparr>written := written st @ [note]\<rparr>"

definition writeCompleted :: "Note \<Rightarrow> App \<Rightarrow> App" where
  "writeCompleted note st =
     (if lastSavedTitle note \<noteq> Some (title note)
      then setNotes (QNotes (map (\<lambda>n. if id_n n = id_n note
                                      then n\<lparr>lastSavedTitle := Some (title note)\<rparr> else n))) st
      else st)"

text \<open>The timer with handle \<open>h\<close> expires: its callback runs, and it is pending no more.\<close>

definition timerFires :: "nat \<Rightarrow> App \<Rightarrow> App" where
  "timerFires h st =
     (case find (\<lambda>(h', k, p). h' = h) (timers st) of
        None \<Rightarrow> st
      | Some (h', k, p) \<Rightarrow> writeFileToDisk p (clearTimeout h st))"

subsection \<open>Rewriting links on a rename\<close>

text \<open>
  The pattern \<^verbatim>\<open>new RegExp(`\\[\\[${escapedOldTitle}\\]\\]`, 'g')\<close> matches the text
  \<^verbatim>\<open>[[\<close>, the old title, \<^verbatim>\<open>]]\<close> literally: every character with a meaning in a
  pattern is escaped. \<^verbatim>\<open>content.match(regex)\<close> is truthy when that text occurs in the
  content.
\<close>

fun occurs :: "string \<Rightarrow> string \<Rightarrow> bool" where
  "occurs p [] = (p = [])"
| "occurs p (c # cs) = (prefix p (c # cs) \<or> occurs p cs)"

text \<open>
  The replacement text is a template: \<^verbatim>\<open>$$\<close> stands for a dollar sign, \<^verbatim>\<open>$&\<close> for the
  matched text, \<^verbatim>\<open>$`\<close> for the text before the match and \<^verbatim>\<open>$'\<close> for the text after
  it. The pattern has no groups, so every other use of the dollar sign is literal.
\<close>

fun getSubstitution :: "string \<Rightarrow> string \<Rightarrow> string \<Rightarrow> string \<Rightarrow> string" where
  "getSubstitution matched before after [] = []"
| "getSubstitution matched before after [c] = [c]"
| "getSubstitution matched before after (c # d # t) =
     (if c = CHR 0x24 then
        (if d = CHR 0x24 then CHR 0x24 # getSubstitution matched before after t
         else if d = CHR 0x26 then matched @ getSubstitution matched before after t
         else if d = CHR 0x60 then before @ getSubstitution matched before after t
         else if d = CHR 0x27 then after @ getSubstitution matched before after t
         else c # getSubstitution matched before after (d # t))
      else c # getSubstitution matched before after (d # t))"

text \<open>
  \<^verbatim>\<open>content.replace(regex, template)\<close> for a literal, non-empty pattern with the flag
  \<^verbatim>\<open>g\<close>: the matches are found from left to right, each search starting after the
  previous match; \<open>before\<close> is the text already passed.
\<close>

function replaceAll :: "string \<Rightarrow> string \<Rightarrow> string \<Rightarrow> string \<Rightarrow> string" where
  "replaceAll p t before s =
     (if s = [] then []
      else if p \<noteq> [] \<and> prefix p s
      then getSubstitution p before (drop (length p) s) t @
           replaceAll p t (before @ p) (drop (length p) s)
      else hd s # replaceAll p t (before @ [hd s]) (tl s))"
  by pat_completeness auto
termination
  by (relation "measure (\<lambda>(p, t, before, s). length s)") auto

declare replaceAll.simps [simp del]

text \<open>
  The callback of \<^verbatim>\<open>prev.map\<close> in \<^verbatim>\<open>updateNote\<close>, with its effect on the timers:
  \<^verbatim>\<open>
  if (n.id === id) return updatedNote;
  if (shouldRefactorLinks && noteToUpdate.title && updatedNote.title) {
      const escapedOldTitle = noteToUpdate.title.replace(/[.*+?^${}()|[\]\\]/g, '\\$&');
      const regex = new RegExp(`\\[\\[${escapedOldTitle}\\]\\]`, 'g');
      if (n.content.match(regex)) {
          const newContent = n.content.replace(regex, `[[${updatedNote.title}]]`);
          const updatedOtherNote = { ...n, content: newContent, updatedAt: getISODate() };
          if (vaultHandle) {
              if (saveTimeoutRef.current[n.id]) clearTimeout(saveTimeoutRef.current[n.id]);
              saveTimeoutRef.current[n.id] = setTimeout(() => writeFileToDisk(updatedOtherNote), 1000);
          }
          return updatedOtherNote;
      }
  }
  return n;
  \<close>
\<close>

definition refactorNote ::
  "bool \<Rightarrow> string \<Rightarrow> string \<Rightarrow> bool \<Rightarrow> Note \<Rightarrow> Note \<Rightarrow> Note \<Rightarrow> App \<Rightarrow> Note \<times> App" where
  "refactorNote vaultHandle now i shouldRefactorLinks noteToUpdate updatedNote n st =
     (if id_n n = i then (updatedNote, st)
      else if shouldRefactorLinks \<and> title noteToUpdate \<noteq> [] \<and> title updatedNote \<noteq> [] \<and>
              occurs (''[['' @ title noteToUpdate @ '']]'') (content n)
      then
        (let newContent = replaceAll (''[['' @ title noteToUpdate @ '']]'')
                            (''[['' @ title updatedNote @ '']]'') [] (content n);
             updatedOtherNote = n\<lparr>content := newContent, updatedAt := now\<rparr>
         in (updatedOtherNote,
             if vaultHandle then schedule (id_n n) updatedOtherNote (cancelPending (id_n n) st)
             else st))
      else (n, st))"

text \<open>\<^verbatim>\<open>xs.map(f)\<close> for a callback with effects: the state is threaded from left to right.\<close>

fun mapWithState :: "('a \<Rightarrow> 's \<Rightarrow> 'b \<times> 's) \<Rightarrow> 'a list \<Rightarrow> 's \<Rightarrow> 'b list \<times> 's" where
  "mapWithState f [] st = ([], st)"
| "mapWithState f (x # xs) st =
     (case f x st of (y, st1) \<Rightarrow>
        (case mapWithState f xs st1 of (ys, st2) \<Rightarrow> (y # ys, st2)))"

text \<open>
  \<^verbatim>\<open>updateNote(id, updates, forceSave)\<close> clears the timer recorded for \<^verbatim>\<open>id\<close> when
  it is called, and hands the rest of its work to \<^verbatim>\<open>setNotes\<close> as an updater, which
  runs later:
  \<^verbatim>\<open>
  if (saveTimeoutRef.current[id]) clearTimeout(saveTimeoutRef.current[id]);
  setNotes(prev => {
      const noteToUpdate = prev.find(n => n.id === id);
      if (!noteToUpdate) return prev;
      const updatedNote = { ...noteToUpdate, ...updates, updatedAt: getISODate() };
      const titleChanged = updates.title !== undefined && updates.title !== noteToUpdate.title;
      const contentChanged = updates.content !== undefined && updates.content !== noteToUpdate.content;
      const metaChanged = updates.isFavorite !== undefined && updates.isFavorite !== noteToUpdate.isFavorite;
      if (vaultHandle) {
           if (forceSave || metaChanged) {
               writeFileToDisk(updatedNote);
           } else if (titleChanged) {
               // Wait for blur
           } else if (contentChanged) {
               saveTimeoutRef.current[id] = setTimeout(() => writeFileToDisk(updatedNote), 1000);
           }
      }
      const shouldRefactorLinks = titleChanged;
      return prev.map(n => ...);
  });
  \<close>
  \<open>updater\<close> is the function passed to \<^verbatim>\<open>setNotes\<close>, applied to the collection of
  the state it runs in, with its effects on the timers and on the vault; \<open>now\<close> is the
  reading of \<^verbatim>\<open>getISODate()\<close> during that run. \<open>updateNote\<close> is the call.
\<close>

definition updater :: "bool \<Rightarrow> string \<Rightarrow> string \<Rightarrow> Updates \<Rightarrow> bool \<Rightarrow> App \<Rightarrow> App" where
  "updater vaultHandle now i updates forceSave st =
     (case find (\<lambda>n. id_n n = i) (notes_st st) of
        None \<Rightarrow> st
      | Some noteToUpdate \<Rightarrow>
          (let updatedNote = applyUpdates noteToUpdate updates now;
               titleChanged = (case u_title updates of
                                 None \<Rightarrow> False | Some t \<Rightarrow> t \<noteq> title noteToUpdate);
               contentChanged = (case u_content updates of
                                   None \<Rightarrow> False | Some c \<Rightarrow> c \<noteq> content noteToUpdate);
               metaChanged = (case u_isFavorite updates of
                                None \<Rightarrow> False | Some b \<Rightarrow> Some b \<noteq> isFavorite noteToUpdate);
               st2 = (if vaultHandle then
                        (if forceSave \<or> metaChanged then writeFileToDisk updatedNote st
                         else if titleChanged then st
                         else if contentChanged then schedule i updatedNote st
                         else st)
                      else st);
               shouldRefactorLinks = titleChanged
           in (case mapWithState
                      (refactorNote vaultHandle now i shouldRefactorLinks noteToUpdate updatedNote)
                      (notes_st st) st2 of
                 (notes', st3) \<Rightarrow> st3\<lparr>notes_st := notes'\<rparr>)))"

definition updateNote :: "bool \<Rightarrow> string \<Rightarrow> Updates \<Rightarrow> bool \<Rightarrow> App \<Rightarrow> App" where
  "updateNote vaultHandle i updates forceSave st =
     setNotes (QUpdate vaultHandle i updates forceSave) (cancelPending i st)"

text \<open>
  React runs the oldest queued updater. Under \<^verbatim>\<open>StrictMode\<close> (\<open>strict\<close>) a development
  build calls every updater twice on the same collection and keeps the result of the
  second call; what the first call did to the timers and to the vault stays done.
\<close>

definition runNext :: "bool \<Rightarrow> string \<Rightarrow> App \<Rightarrow> App" where
  "runNext strict now st =
     (case queue st of
        [] \<Rightarrow> st
      | q # qs \<Rightarrow>
          (let st0 = st\<lparr>queue := qs\<rparr> in
             case q of
               QNotes g \<Rightarrow> st0\<lparr>notes_st := g (notes_st st0)\<rparr>
             | QUpdate vaultHandle i updates forceSave \<Rightarrow>
                 (if strict
                  then updater vaultHandle now i updates forceSave
                         ((updater vaultHandle now i updates forceSave st0)
                            \<lparr>notes_st := notes_st st0\<rparr>)
                  else updater vaultHandle now i updates forceSave st0)))"

text \<open>
  The effect of \<^verbatim>\<open>loadFromVault(handle, replace)\<close> once the batch \<open>loaded\<close> is read. In
  replace mode every timer recorded in \<^verbatim>\<open>saveTimeoutRef.current\<close> is cleared and the
  object is reset:
  \<^verbatim>\<open>
  Object.values(saveTimeoutRef.current).forEach(clearTimeout);
  saveTimeoutRef.current = {};
  \<close>
  The new collection is handed to \<^verbatim>\<open>setNotes\<close>, in replace mode as a value and in merge
  mode as an updater.
\<close>

definition loadFromVault ::
  "(string \<Rightarrow> int) \<Rightarrow> Note \<Rightarrow> bool \<Rightarrow> Note list \<Rightarrow> App \<Rightarrow> App" where
  "loadFromVault ts initial replace loaded st =
     (let st1 = (if replace
                 then st\<lparr>timers := filter (\<lambda>(h, k, p). h \<notin> set (map snd (saveTimeoutRef st)))
                                        (timers st),
                         saveTimeoutRef := []\<rparr>
                 else st)
      in setNotes (QNotes (\<lambda>prev. loadedNotes ts initial replace prev loaded)) st1)"

definition initialApp :: "Note list \<Rightarrow> App" where
  "initialApp ns =
     \<lparr>notes_st = ns, saveTimeoutRef = [], timers = [], nextTimer = 1, written = [], queue = []\<rparr>"

text \<open>
  The states the application can be in: it starts with some collection, no timer and no
  queued updater; each event is a call of \<^verbatim>\<open>updateNote\<close>, the run of the oldest queued
  updater, the expiry of a timer, the completion of a write, a load from the vault, or
  some other call of \<^verbatim>\<open>setNotes\<close> (creating or deleting a note, expanding a branch),
  whose updater leaves the timers alone.
\<close>

inductive reachable :: "App \<Rightarrow> bool" where
  start: "reachable (initialApp ns)"
| update: "reachable st \<Longrightarrow> reachable (updateNote vaultHandle i updates forceSave st)"
| run: "reachable st \<Longrightarrow> reachable (runNext strict now st)"
| fires: "reachable st \<Longrightarrow> reachable (timerFires h st)"
| completed: "reachable st \<Longrightarrow> reachable (writeCompleted note st)"
| load: "reachable st \<Longrightarrow> reachable (loadFromVault ts initial replace loaded st)"
| other: "reachable st \<Longrightarrow> reachable (setNotes (QNotes g) st)"

text \<open>The writes that are scheduled and pending under the key \<open>k\<close>, oldest first.\<close>

definition pending :: "App \<Rightarrow> string \<Rightarrow> Note list" where
  "pending st k = map (\<lambda>(h, k', p). p) (filter (\<lambda>(h, k', p). k' = k) (timers st))"

text \<open>
  A pending timer is \<^emph>\<open>unrecorded\<close> when \<^verbatim>\<open>saveTimeoutRef.current\<close> no longer holds its
  handle under its key: no \<^verbatim>\<open>clearTimeout\<close> of the code can reach it, and it will fire.
  \<open>unrecorded st k\<close> are the notes such timers of the key \<open>k\<close> will write.
\<close>

definition unrecorded :: "App \<Rightarrow> string \<Rightarrow> Note list" where
  "unrecorded st k =
     map (\<lambda>(h, k', p). p)
       (filter (\<lambda>(h, k', p). k' = k \<and> map_of (saveTimeoutRef st) k \<noteq> Some h) (timers st))"

text \<open>
  What holds of the timers in every state: no handle is pending twice; the pending and
  the recorded handles are positive and below the next fresh one; and a recorded handle
  that is pending belongs to a timer of the key it is recorded under.
\<close>

definition timers_wf :: "App \<Rightarrow> bool" where
  "timers_wf st =
     (distinct (map fst (timers st)) \<and>
      list_all (\<lambda>(h, k, p). h < nextTimer st \<and>
                  list_all (\<lambda>(k', h'). h' = h \<longrightarrow> k' = k) (saveTimeoutRef st)) (timers st) \<and>
      list_all (\<lambda>(k, h). 0 < h \<and> h < nextTimer st) (saveTimeoutRef st) \<and>
      0 < nextTimer st)"

text \<open>
  The discipline of the debounce: in addition, every pending timer is the one recorded
  under its key, and no handle is recorded under two keys.
\<close>

definition timers_ok :: "App \<Rightarrow> bool" where
  "timers_ok st =
     (list_all (\<lambda>(h, k, p). map_of (saveTimeoutRef st) k = Some h) (timers st) \<and>
      distinct (map fst (timers st)) \<and>
      distinct (map snd (saveTimeoutRef st)) \<and>
      list_all (\<lambda>(k, h). 0 < h \<and> h < nextTimer st) (saveTimeoutRef st) \<and>
      0 < nextTimer st)"

text \<open>An update that sets the body and nothing else.\<close>

definition contentUpdate :: "string \<Rightarrow> Updates" where
  "contentUpdate c =
     \<lparr>u_id = None, u_title = None, u_content = Some c, u_createdAt = None, u_updatedAt = None,
      u_parentId = None, u_expanded = None, u_lastSavedTitle = None, u_isFavorite = None\<rparr>"

definition titleUpdate :: "string \<Rightarrow> Updates" where
  "titleUpdate t =
     \<lparr>u_id = None, u_title = Some t, u_content = None, u_createdAt = None, u_updatedAt = None,
      u_parentId = None, u_expanded = None, u_lastSavedTitle = None, u_isFavorite = None\<rparr>"

text \<open>
  Two collections for the rename examples: a note titled \<open>Foo\<close> and a second note that
  refers to it, with the exact title and with another letter case.
\<close>

definition rename_example :: App where
  "rename_example = initialApp [mk_note ''A'' ''Foo'' '''', mk_note ''B'' ''Notes'' ''see [[Foo]]'']"

definition case_example :: App where
  "case_example = initialApp [mk_note ''A'' ''Foo'' '''', mk_note ''B'' ''Notes'' ''see [[foo]]'']"

section \<open>The force layout step\<close>

text \<open>
  A JavaScript number is an IEEE 754 double. The model keeps the real value of a finite
  number and the three special values; every operation on finite numbers gives the exact
  real result, except division by zero and the square root of a negative number, which
  give what JavaScript gives: an infinity or \<^verbatim>\<open>NaN\<close>. Rounding, the sign of zero (a
  zero divisor counts as positive), overflow to an infinity and underflow to zero are
  outside the model, so nothing is concluded below from a result of the model being
  finite or non-zero: the statements are evaluations at given numbers, and equations
  that hold of the doubles as well.
\<close>

datatype num = Fin real | PInf | NInf | NaN

fun n_neg :: "num \<Rightarrow> num" where
  "n_neg (Fin x) = Fin (- x)"
| "n_neg PInf = NInf"
| "n_neg NInf = PInf"
| "n_neg NaN = NaN"

fun n_add :: "num \<Rightarrow> num \<Rightarrow> num" where
  "n_add (Fin x) (Fin y) = Fin (x + y)"
| "n_add NaN b = NaN"
| "n_add a NaN = NaN"
| "n_add PInf NInf = NaN"
| "n_add NInf PInf = NaN"
| "n_add PInf b = PInf"
| "n_add a PInf = PInf"
| "n_add NInf b = NInf"
| "n_add a NInf = NInf"

definition n_sub :: "num \<Rightarrow> num \<Rightarrow> num" where
  "n_sub a b = n_add a (n_neg b)"

text \<open>The infinity with the sign of a non-zero real; \<^verbatim>\<open>NaN\<close> for zero.\<close>

definition signed_inf :: "real \<Rightarrow> num" where
  "signed_inf x = (if x = 0 then NaN else if 0 < x then PInf else NInf)"

fun n_mul :: "num \<Rightarrow> num \<Rightarrow> num" where
  "n_mul (Fin x) (Fin y) = Fin (x * y)"
| "n_mul NaN b = NaN"
| "n_mul a NaN = NaN"
| "n_mul (Fin x) PInf = signed_inf x"
| "n_mul (Fin x) NInf = signed_inf (- x)"
| "n_mul PInf (Fin y) = signed_inf y"
| "n_mul NInf (Fin y) = signed_inf (- y)"
| "n_mul PInf PInf = PInf"
| "n_mul PInf NInf = NInf"
| "n_mul NInf PInf = NInf"
| "n_mul NInf NInf = PInf"

fun n_div :: "num \<Rightarrow> num \<Rightarrow> num" where
  "n_div (Fin x) (Fin y) = (if y = 0 then signed_inf x else Fin (x / y))"
| "n_div NaN b = NaN"
| "n_div a NaN = NaN"
| "n_div (Fin x) PInf = Fin 0"
| "n_div (Fin x) NInf = Fin 0"
| "n_div PInf (Fin y) = (if y < 0 then NInf else PInf)"
| "n_div NInf (Fin y) = (if y < 0 then PInf else NInf)"
| "n_div PInf PInf = NaN"
| "n_div PInf NInf = NaN"
| "n_div NInf PInf = NaN"
| "n_div NInf NInf = NaN"

fun n_sqrt :: "num \<Rightarrow> num" where
  "n_sqrt (Fin x) = (if x < 0 then NaN else Fin (sqrt x))"
| "n_sqrt PInf = PInf"
| "n_sqrt NInf = NaN"
| "n_sqrt NaN = NaN"

fun n_lt :: "num \<Rightarrow> num \<Rightarrow> bool" where
  "n_lt (Fin x) (Fin y) = (x < y)"
| "n_lt NaN b = False"
| "n_lt a NaN = False"
| "n_lt PInf b = False"
| "n_lt a NInf = False"
| "n_lt NInf b = True"
| "n_lt a PInf = True"

text \<open>Truthiness of a number: zero and \<^verbatim>\<open>NaN\<close> are falsy.\<close>

fun truthy_num :: "num \<Rightarrow> bool" where
  "truthy_num (Fin x) = (x \<noteq> 0)"
| "truthy_num NaN = False"
| "truthy_num PInf = True"
| "truthy_num NInf = True"

text \<open>\<^verbatim>\<open>interface GraphNode\<close>; the fields \<^verbatim>\<open>id, title, x, y, vx, vy\<close> carry the suffix \<open>_g\<close>.\<close>

record GraphNode =
  id_g :: string
  title_g :: string
  x_g :: num
  y_g :: num
  vx_g :: num
  vy_g :: num

definition REPULSION :: num where "REPULSION = Fin 1500"
definition SPRING_LENGTH :: num where "SPRING_LENGTH = Fin 150"
definition SPRING_STRENGTH :: num where "SPRING_STRENGTH = Fin (5 / 100)"
definition DAMPING :: num where "DAMPING = Fin (85 / 100)"
definition CENTER_FORCE :: num where "CENTER_FORCE = Fin (5 / 1000)"

text \<open>
  The callback of the inner \<^verbatim>\<open>nodes.forEach((other) => ...)\<close>, on the force accumulated
  so far:
  \<^verbatim>\<open>
  if (node.id === other.id) return;
  const dx = node.x - other.x;
  const dy = node.y - other.y;
  const distSq = dx * dx + dy * dy || 1;
  const dist = Math.sqrt(distSq);
  const force = REPULSION / distSq;
  fx += (dx / dist) * force;
  fy += (dy / dist) * force;
  \<close>
\<close>

definition repel :: "GraphNode \<Rightarrow> num \<times> num \<Rightarrow> GraphNode \<Rightarrow> num \<times> num" where
  "repel node f other =
     (if id_g node = id_g other then f
      else
        (let dx = n_sub (x_g node) (x_g other);
             dy = n_sub (y_g node) (y_g other);
             s = n_add (n_mul dx dx) (n_mul dy dy);
             distSq = (if truthy_num s then s else Fin 1);
             dist = n_sqrt distSq;
             force = n_div REPULSION distSq
         in (n_add (fst f) (n_mul (n_div dx dist) force),
             n_add (snd f) (n_mul (n_div dy dist) force))))"

text \<open>
  The callback of \<^verbatim>\<open>links.forEach((link) => ...)\<close>:
  \<^verbatim>\<open>
  const isSource = link.source === node.id;
  const isTarget = link.target === node.id;
  if (isSource || isTarget) {
    const otherId = isSource ? link.target : link.source;
    const other = nodes.find((n) => n.id === otherId);
    if (other) {
      const dx = other.x - node.x;
      const dy = other.y - node.y;
      const dist = Math.sqrt(dx * dx + dy * dy);
      const force = (dist - SPRING_LENGTH) * SPRING_STRENGTH;
      fx += (dx / dist) * force;
      fy += (dy / dist) * force;
    }
  }
  \<close>
\<close>

definition attract :: "GraphNode list \<Rightarrow> GraphNode \<Rightarrow> num \<times> num \<Rightarrow> GraphLink \<Rightarrow> num \<times> num" where
  "attract nodes node f link =
     (let isSource = (source link = id_g node);
          isTarget = (target link = id_g node)
      in if isSource \<or> isTarget then
           (let otherId = (if isSource then target link else source link)
            in case find (\<lambda>n. id_g n = otherId) nodes of
                 None \<Rightarrow> f
               | Some other \<Rightarrow>
                   (let dx = n_sub (x_g other) (x_g node);
                        dy = n_sub (y_g other) (y_g node);
                        dist = n_sqrt (n_add (n_mul dx dx) (n_mul dy dy));
                        force = n_mul (n_sub dist SPRING_LENGTH) SPRING_STRENGTH
                    in (n_add (fst f) (n_mul (n_div dx dist) force),
                        n_add (snd f) (n_mul (n_div dy dist) force))))
         else f)"

text \<open>
  The body of the outer \<^verbatim>\<open>nodes.forEach((node) => ...)\<close>: the node after its update, where
  \<open>nodes\<close> is the array as it is when the node's turn comes.
  \<^verbatim>\<open>
  const cx = width / 2;
  const cy = height / 2;
  fx += (cx - node.x) * CENTER_FORCE;
  fy += (cy - node.y) * CENTER_FORCE;
  node.vx = (node.vx + fx) * DAMPING;
  node.vy = (node.vy + fy) * DAMPING;
  node.x += node.vx;
  node.y += node.vy;
  if (node.x < 50) node.vx += 1;
  if (node.x > width - 50) node.vx -= 1;
  if (node.y < 50) node.vy += 1;
  if (node.y > height - 50) node.vy -= 1;
  \<close>
\<close>

definition updateNode :: "GraphNode list \<Rightarrow> GraphLink list \<Rightarrow> num \<Rightarrow> num \<Rightarrow> GraphNode \<Rightarrow> GraphNode" where
  "updateNode nodes links width height node =
     (let f1 = foldl (repel node) (Fin 0, Fin 0) nodes;
          f2 = foldl (attract nodes node) f1 links;
          cx = n_div width (Fin 2);
          cy = n_div height (Fin 2);
          fx = n_add (fst f2) (n_mul (n_sub cx (x_g node)) CENTER_FORCE);
          fy = n_add (snd f2) (n_mul (n_sub cy (y_g node)) CENTER_FORCE);
          vx1 = n_mul (n_add (vx_g node) fx) DAMPING;
          vy1 = n_mul (n_add (vy_g node) fy) DAMPING;
          x1 = n_add (x_g node) vx1;
          y1 = n_add (y_g node) vy1;
          vx2 = (if n_lt x1 (Fin 50) then n_add vx1 (Fin 1) else vx1);
          vx3 = (if n_lt (n_sub width (Fin 50)) x1 then n_sub vx2 (Fin 1) else vx2);
          vy2 = (if n_lt y1 (Fin 50) then n_add vy1 (Fin 1) else vy1);
          vy3 = (if n_lt (n_sub height (Fin 50)) y1 then n_sub vy2 (Fin 1) else vy2)
      in node\<lparr>x_g := x1, y_g := y1, vx_g := vx3, vy_g := vy3\<rparr>)"

text \<open>
  The outer loop mutates the nodes in place, one after another: when a node's turn comes,
  the nodes before it in the array are already updated. \<open>done\<close> holds those, \<open>rest\<close>
  the nodes still to be updated.
\<close>

fun physicsLoop :: "GraphLink list \<Rightarrow> num \<Rightarrow> num \<Rightarrow> GraphNode list \<Rightarrow> GraphNode list \<Rightarrow> GraphNode list" where
  "physicsLoop links width height done [] = done"
| "physicsLoop links width height done (node # rest) =
     physicsLoop links width height
       (done @ [updateNode (done @ node # rest) links width height node]) rest"

text \<open>
  The physics step of \<^verbatim>\<open>animate\<close>, with a drawing context present:
  \<^verbatim>\<open>if (!ctx || !width || !height) return;\<close> and then the loop.
\<close>

definition physicsStep :: "GraphLink list \<Rightarrow> num \<Rightarrow> num \<Rightarrow> GraphNode list \<Rightarrow> GraphNode list" where
  "physicsStep links width height nodes =
     (if \<not> truthy_num width \<or> \<not> truthy_num height then nodes
      else physicsLoop links width height [] nodes)"

text \<open>
  The step in the words of the layout description: all forces are computed from the
  positions before the step, then every node is updated.
\<close>

definition syncStep :: "GraphLink list \<Rightarrow> num \<Rightarrow> num \<Rightarrow> GraphNode list \<Rightarrow> GraphNode list" where
  "syncStep links width height nodes =
     (if \<not> truthy_num width \<or> \<not> truthy_num height then nodes
      else map (updateNode nodes links width height) nodes)"

text \<open>A node at a position with a velocity along the horizontal axis.\<close>

definition mk_node :: "string \<Rightarrow> real \<Rightarrow> real \<Rightarrow> real \<Rightarrow> GraphNode" where
  "mk_node i px py v =
     \<lparr>id_g = i, title_g = i, x_g = Fin px, y_g = Fin py, vx_g = Fin v, vy_g = Fin 0\<rparr>"

section \<open>Filename derivation\<close>

lemma replace_class_single: "replace_class P [r] t = map (\<lambda>c. if P c then r else c) t"
  by (induction t) simp_all

lemma Canonicalize_high: "128 \<le> m \<Longrightarrow> 128 \<le> Canonicalize toUpper m"
  by (simp add: Canonicalize_def split: list.splits)

lemma set_class_members:
  "m \<in> set class_members \<longleftrightarrow>
     (97 \<le> m \<and> m \<le> 122) \<or> (48 \<le> m \<and> m \<le> 57) \<or> (192 \<le> m \<and> m \<le> 591) \<or>
     (7680 \<le> m \<and> m \<le> 7935)"
  unfolding class_members_def set_append set_upt by auto

text \<open>Below 128 the class is that of the letters and digits, whatever the tables say.\<close>

lemma word_class_ascii:
  assumes "c < 128"
  shows "word_class toUpper c \<longleftrightarrow>
     (97 \<le> c \<and> c \<le> 122) \<or> (65 \<le> c \<and> c \<le> 90) \<or> (48 \<le> c \<and> c \<le> 57)"
proof
  assume "word_class toUpper c"
  then obtain m where m: "m \<in> set class_members"
    and e: "Canonicalize toUpper m = Canonicalize toUpper c"
    by (auto simp: word_class_def list_ex_iff)
  have c: "Canonicalize toUpper c = ascii_upper c"
    using assms by (simp add: Canonicalize_def)
  show "(97 \<le> c \<and> c \<le> 122) \<or> (65 \<le> c \<and> c \<le> 90) \<or> (48 \<le> c \<and> c \<le> 57)"
  proof (cases "m < 128")
    case True
    then have "ascii_upper m = ascii_upper c"
      using e c by (simp add: Canonicalize_def)
    moreover have "(97 \<le> m \<and> m \<le> 122) \<or> (48 \<le> m \<and> m \<le> 57)"
      using m True by (auto simp: set_class_members)
    ultimately show ?thesis
      by (auto simp: ascii_upper_def split: if_splits)
  next
    case False
    then have "128 \<le> Canonicalize toUpper m"
      by (simp add: Canonicalize_high)
    moreover have "ascii_upper c < 128"
      using assms by (auto simp: ascii_upper_def)
    ultimately show ?thesis
      using e c by simp
  qed
next
  assume a: "(97 \<le> c \<and> c \<le> 122) \<or> (65 \<le> c \<and> c \<le> 90) \<or> (48 \<le> c \<and> c \<le> 57)"
  define m where "m = (if 65 \<le> c \<and> c \<le> 90 then c + 32 else c)"
  have "m \<in> set class_members"
    using a by (auto simp: m_def set_class_members)
  moreover have "Canonicalize toUpper m = Canonicalize toUpper c"
    using a by (auto simp: m_def Canonicalize_def ascii_upper_def)
  ultimately show "word_class toUpper c"
    by (auto simp: word_class_def list_ex_iff)
qed

lemma getFilename_ascii:
  assumes "list_all (\<lambda>c. c < 128) t"
  shows "getFilename toUpper lower t =
     (if t = [] then units ''untitled.md''
      else map (\<lambda>c. if (97 \<le> c \<and> c \<le> 122) \<or> (65 \<le> c \<and> c \<le> 90) \<or> (48 \<le> c \<and> c \<le> 57)
                     then ascii_lower c else 95) t @ units ''.md'')"
proof -
  let ?f = "\<lambda>c. if \<not> word_class toUpper c then 95 else c"
  let ?g = "\<lambda>c. if (97 \<le> c \<and> c \<le> 122) \<or> (65 \<le> c \<and> c \<le> 90) \<or> (48 \<le> c \<and> c \<le> 57)
                 then ascii_lower c else 95"
  have u: "units ''_'' = [95]"
    by (simp add: units_def)
  have small: "list_all (\<lambda>c. c < 128) (map ?f t)"
    using assms by (auto simp: list_all_iff)
  have "map ascii_lower (map ?f t) = map ?g t"
    using assms by (auto simp: list_all_iff word_class_ascii ascii_lower_def)
  then have "toLowerCase16 lower (replace_class (\<lambda>c. \<not> word_class toUpper c) (units ''_'') t) =
      map ?g t"
    using small by (simp add: toLowerCase16_def u replace_class_single)
  then show ?thesis
    by (simp add: getFilename_def Let_def units_def)
qed

text \<open>
  Claim C9 as stated fails: a run of two spaces gives two separators, where the
  description's slug has one. The title has code units below 128 only, so the case tables
  play no part; they are set to tables that move nothing.
\<close>

theorem getFilename_run_counterexample:
  "getFilename (\<lambda>c. [c]) (\<lambda>s. s) (units ''a  b'') = units ''a__b.md'' \<and>
   spec_filename (\<lambda>c. [c]) (\<lambda>s. s) (units ''a  b'') = units ''a_b.md'' \<and>
   getFilename (\<lambda>c. [c]) (\<lambda>s. s) (units ''a  b'') \<noteq>
   spec_filename (\<lambda>c. [c]) (\<lambda>s. s) (units ''a  b'')"
proof -
  have 1: "getFilename (\<lambda>c. [c]) (\<lambda>s. s) (units ''a  b'') = units ''a__b.md''"
    by (simp add: getFilename_ascii units_def ascii_lower_def)
  have 2: "spec_filename (\<lambda>c. [c]) (\<lambda>s. s) (units ''a  b'') = units ''a_b.md''"
    by (simp add: spec_filename_def toLowerCase16_def units_def ascii_lower_def word_class_ascii)
  show ?thesis
    unfolding 1 2 by (simp add: units_def)
qed

text \<open>
  Claim C9, amended: the resource name is the slug followed by \<open>.md\<close>. The slug is
  obtained by replacing every code unit of the title outside the class of the pattern by
  one separator \<open>_\<close>, code unit by code unit (a run of k of them gives k separators), and
  by putting the result in lower case with \<^verbatim>\<open>toLowerCase\<close>; an empty result gives
  \<open>untitled\<close>. The class keeps every code unit from U+00C0 to U+024F and from U+1E00 to
  U+1EFF, the accented Latin letters and the signs U+00D7 and U+00F7 among them. For a
  title of code units below 128 the slug has one code unit per code unit of the title:
  the lower case of a letter, a digit as it is, and \<open>_\<close> for anything else.
\<close>

theorem getFilename_per_code_unit:
  "getFilename toUpper lower t =
     (let s = toLowerCase16 lower (map (\<lambda>c. if word_class toUpper c then c else 95) t)
      in (if s = [] then units ''untitled'' else s) @ units ''.md'') \<and>
   (\<forall>c. (192 \<le> c \<and> c \<le> 591) \<or> (7680 \<le> c \<and> c \<le> 7935) \<longrightarrow> word_class toUpper c) \<and>
   (list_all (\<lambda>c. c < 128) t \<longrightarrow>
      getFilename toUpper lower t =
        (if t = [] then units ''untitled.md''
         else map (\<lambda>c. if (97 \<le> c \<and> c \<le> 122) \<or> (65 \<le> c \<and> c \<le> 90) \<or> (48 \<le> c \<and> c \<le> 57)
                        then ascii_lower c else 95) t @ units ''.md''))"
proof (intro conjI allI impI)
  have "(\<lambda>c. if \<not> word_class toUpper c then 95 else c) =
        (\<lambda>c. if word_class toUpper c then c else 95)"
    by auto
  then show "getFilename toUpper lower t =
     (let s = toLowerCase16 lower (map (\<lambda>c. if word_class toUpper c then c else 95) t)
      in (if s = [] then units ''untitled'' else s) @ units ''.md'')"
    by (simp add: getFilename_def Let_def units_def replace_class_single)
next
  fix c :: nat
  assume "(192 \<le> c \<and> c \<le> 591) \<or> (7680 \<le> c \<and> c \<le> 7935)"
  then have "c \<in> set class_members"
    by (auto simp: set_class_members)
  then show "word_class toUpper c"
    by (auto simp: word_class_def list_ex_iff)
next
  assume "list_all (\<lambda>c. c < 128) t"
  then show "getFilename toUpper lower t =
        (if t = [] then units ''untitled.md''
         else map (\<lambda>c. if (97 \<le> c \<and> c \<le> 122) \<or> (65 \<le> c \<and> c \<le> 90) \<or> (48 \<le> c \<and> c \<le> 57)
                        then ascii_lower c else 95) t @ units ''.md'')"
    by (rule getFilename_ascii)
qed

theorem getFilename_per_code_unit_witness:
  "getFilename (\<lambda>c. [c]) (\<lambda>s. s) (units ''My Note  2'') = units ''my_note__2.md''"
proof -
  have a: "list_all (\<lambda>c. c < 128) (units ''My Note  2'')"
    by (simp add: units_def)
  from getFilename_per_code_unit [of "\<lambda>c. [c]" "\<lambda>s. s" "units ''My Note  2''",
      THEN conjunct2, THEN conjunct2, rule_format, OF a]
  show ?thesis
    by (simp add: units_def ascii_lower_def)
qed
section \<open>Link extraction\<close>

lemma linksFrom_set:
  "(l \<in> set (linksFrom ns S)) =
     (\<exists>X \<in> set (markers (content S)). \<exists>T.
        find (\<lambda>n. toLowerCase (title n) = toLowerCase X) ns = Some T \<and>
        id_n T \<noteq> id_n S \<and> l = \<lparr>source = id_n S, target = id_n T\<rparr>)"
proof -
  have "(l \<in> set (case find (\<lambda>n. toLowerCase (title n) = toLowerCase X) ns of
                     None \<Rightarrow> []
                   | Some T \<Rightarrow> if id_n T \<noteq> id_n S
                       then [\<lparr>source = id_n S, target = id_n T\<rparr>] else [])) =
        (\<exists>T. find (\<lambda>n. toLowerCase (title n) = toLowerCase X) ns = Some T \<and>
             id_n T \<noteq> id_n S \<and> l = \<lparr>source = id_n S, target = id_n T\<rparr>)" for X
    by (cases "find (\<lambda>n. toLowerCase (title n) = toLowerCase X) ns") auto
  then show ?thesis
    unfolding linksFrom_def by simp
qed

text \<open>
  Claim C6 as stated fails on a collection with two titles equal up to letter case: the
  marker of note 1 resolves to note 2 only, although note 3 also matches it and is a
  different note.
\<close>

theorem extractLinks_duplicate_title_counterexample:
  "claimed_link (mk_note ''1'' ''Alpha'' ''link to [[Beta]]'') (mk_note ''3'' ''beta'' '''') \<and>
   \<lparr>source = ''1'', target = ''3''\<rparr> \<notin>
     set (extractLinks [mk_note ''1'' ''Alpha'' ''link to [[Beta]]'',
                        mk_note ''2'' ''Beta'' '''', mk_note ''3'' ''beta'' ''''])"
  by code_simp

text \<open>
  Claim C6, amended: the link set has a link from \<open>s\<close> to \<open>t\<close> exactly when some note
  with identifier \<open>s\<close> has a marker \<open>[[X]]\<close> in its body, the first note of the collection
  whose title equals \<open>X\<close> up to letter case has identifier \<open>t\<close>, and \<open>t\<close> differs from \<open>s\<close>.
  A marker whose first match is the source itself, or that matches no title, gives no
  link. The example collection gives exactly one link, from 1 to 2.
\<close>

theorem extractLinks_contract:
  "((\<lparr>source = s, target = t\<rparr> \<in> set (extractLinks ns)) =
      (\<exists>S \<in> set ns. \<exists>X \<in> set (markers (content S)). id_n S = s \<and>
         (\<exists>T. find (\<lambda>n. toLowerCase (title n) = toLowerCase X) ns = Some T \<and>
              id_n T = t \<and> t \<noteq> s))) \<and>
   extractLinks example_collection = [\<lparr>source = ''1'', target = ''2''\<rparr>]"
proof
  show "(\<lparr>source = s, target = t\<rparr> \<in> set (extractLinks ns)) =
      (\<exists>S \<in> set ns. \<exists>X \<in> set (markers (content S)). id_n S = s \<and>
         (\<exists>T. find (\<lambda>n. toLowerCase (title n) = toLowerCase X) ns = Some T \<and>
              id_n T = t \<and> t \<noteq> s))"
    unfolding extractLinks_def by (simp add: linksFrom_set) blast
  show "extractLinks example_collection = [\<lparr>source = ''1'', target = ''2''\<rparr>]"
    by code_simp
qed

theorem extractLinks_contract_witness:
  "\<lparr>source = ''1'', target = ''2''\<rparr> \<in> set (extractLinks example_collection)"
proof -
  let ?S = "mk_note ''1'' ''Alpha'' ''link to [[Beta]]''"
  let ?T = "mk_note ''2'' ''Beta'' ''''"
  have S: "?S \<in> set example_collection"
    by (simp add: example_collection_def)
  have X: "''Beta'' \<in> set (markers (content ?S))"
    by code_simp
  have T: "find (\<lambda>n. toLowerCase (title n) = toLowerCase ''Beta'') example_collection = Some ?T"
    by code_simp
  have ids: "id_n ?S = ''1''" "id_n ?T = ''2''"
    by (simp_all add: mk_note_def)
  have "\<exists>S \<in> set example_collection. \<exists>X \<in> set (markers (content S)). id_n S = ''1'' \<and>
          (\<exists>T. find (\<lambda>n. toLowerCase (title n) = toLowerCase X) example_collection = Some T \<and>
               id_n T = ''2'' \<and> ''2'' \<noteq> ''1'')"
    using S X T ids by (intro bexI [of _ ?S] bexI [of _ "''Beta''"]) auto
  then show ?thesis
    using extractLinks_contract [of "''1''" "''2''" example_collection] by blast
qed

section \<open>Codec round trip\<close>

lemma split_on_nonempty: "split_on c s \<noteq> []"
  by (induction s) (auto split: list.splits)

lemma split_on_no_sep: "c \<notin> set k \<Longrightarrow> split_on c k = [k]"
  by (induction k) auto

lemma split_on_append: "c \<notin> set k \<Longrightarrow> split_on c (k @ c # r) = k # split_on c r"
  by (induction k) auto

lemma join_Cons_Cons: "join c ((x # y) # ys) = x # join c (y # ys)"
  by (cases ys) auto

lemma join_split_on: "join c (split_on c r) = r"
proof (induction r)
  case Nil
  show ?case by simp
next
  case (Cons x xs)
  obtain y ys where s: "split_on c xs = y # ys"
    using split_on_nonempty [of c xs] by (cases "split_on c xs") auto
  with Cons show ?case by (auto simp: join_Cons_Cons)
qed

lemma trim_leading_space: "trim s = s \<Longrightarrow> trim (CHR '' '' # s) = s"
  by (simp add: trim_def is_space_def)

lemma parse_line_field:
  assumes "CHR '':'' \<notin> set k" "k \<noteq> []"
  shows "parse_line m (k @ '': '' @ v) =
           (let val = trim (CHR '' '' # v) in
              if val = ''true'' then m(trim k \<mapsto> JBool True)
              else if val = ''false'' then m(trim k \<mapsto> JBool False)
              else if val \<noteq> ''null'' then m(trim k \<mapsto> JStr val)
              else m(trim k \<mapsto> JNull))"
proof -
  have e: "k @ '': '' @ v = k @ CHR '':'' # (CHR '' '' # v)"
    by simp
  have s: "split_on CHR '':'' (k @ CHR '':'' # (CHR '' '' # v)) = k # split_on CHR '':'' (CHR '' '' # v)"
    using assms(1) by (rule split_on_append)
  have j: "join CHR '':'' (split_on CHR '':'' (CHR '' '' # v)) = CHR '' '' # v"
    by (rule join_split_on)
  show ?thesis
    unfolding parse_line_def e s using assms(2) by (simp add: j del: split_on.simps)
qed

lemma parse_line_plain:
  assumes "CHR '':'' \<notin> set k" "k \<noteq> []" "trim k = k" "plain v"
  shows "parse_line m (k @ '': '' @ v) = m(k \<mapsto> JStr v)"
  using assms(3,4) unfolding parse_line_field [OF assms(1,2)]
  by (simp add: plain_def trim_leading_space)

lemma find_delim_here: "find_delim ([LF] @ ''---'' @ [LF] @ s) = Some ([], s)"
  by simp

lemma find_delim_skip:
  "c \<noteq> LF \<Longrightarrow> find_delim (c # s) = map_option (\<lambda>(y, r). (c # y, r)) (find_delim s)"
  by (auto split: option.splits)

lemma find_delim_line:
  "LF \<notin> set l \<Longrightarrow> find_delim (l @ s) = map_option (\<lambda>(y, r). (l @ y, r)) (find_delim s)"
proof (induction l)
  case Nil
  show ?case by (simp add: option.map_ident case_prod_beta cong: option.map_cong)
next
  case (Cons c l)
  then have "c \<noteq> LF" "LF \<notin> set l" by auto
  then show ?case
    using Cons.IH find_delim_skip [of c "l @ s"]
    by (simp add: option.map_comp comp_def case_prod_beta del: find_delim.simps)
qed

lemma find_delim_newline:
  "d \<noteq> CHR ''-'' \<Longrightarrow>
   find_delim (LF # d # s) = map_option (\<lambda>(y, r). (LF # y, r)) (find_delim (d # s))"
  by (auto split: option.splits)


lemma find_delim_lines:
  assumes "\<forall>l \<in> set ls. LF \<notin> set l \<and> l \<noteq> [] \<and> hd l \<noteq> CHR ''-''" "ls \<noteq> []"
  shows "find_delim (join LF ls @ [LF] @ ''---'' @ [LF] @ s) = Some (join LF ls, s)"
  using assms
proof (induction ls)
  case Nil
  then show ?case by simp
next
  case (Cons x ls)
  then have x: "LF \<notin> set x" by simp
  show ?case
  proof (cases ls)
    case Nil
    then show ?thesis
      using x find_delim_line [of x "[LF] @ ''---'' @ [LF] @ s"] find_delim_here [of s]
      by (simp del: find_delim.simps)
  next
    case (Cons y ys)
    with Cons.prems have y: "y \<noteq> []" "hd y \<noteq> CHR ''-''"
      and rest: "\<forall>l \<in> set ls. LF \<notin> set l \<and> l \<noteq> [] \<and> hd l \<noteq> CHR ''-''" "ls \<noteq> []"
      by auto
    obtain d t where t: "join LF ls @ [LF] @ ''---'' @ [LF] @ s = d # t" "d \<noteq> CHR ''-''"
      using y Cons by (cases y; cases ys) auto
    have IH: "find_delim (d # t) = Some (join LF ls, s)"
      using Cons.IH rest t(1) by simp
    have "find_delim (join LF (x # ls) @ [LF] @ ''---'' @ [LF] @ s) =
          find_delim (x @ LF # d # t)"
      using t(1) Cons by simp
    also have "\<dots> = map_option (\<lambda>(y, r). (x @ y, r)) (find_delim (LF # d # t))"
      using x by (rule find_delim_line)
    also have "\<dots> = Some (x @ LF # join LF ls, s)"
      using find_delim_newline [OF t(2), of t] IH by (simp del: find_delim.simps)
    finally show ?thesis using Cons by simp
  qed
qed

lemma split_on_join:
  "\<forall>l \<in> set ls. c \<notin> set l \<Longrightarrow> ls \<noteq> [] \<Longrightarrow> split_on c (join c ls) = ls"
proof (induction ls rule: join.induct [of _ c])
  case (1 c)
  then show ?case by simp
next
  case (2 c x)
  then show ?case by (simp add: split_on_no_sep)
next
  case (3 c x y ys)
  then show ?case
    using split_on_append [of c x "join c (y # ys)"] by (simp del: split_on.simps)
qed


lemma parse_line_null:
  assumes "CHR '':'' \<notin> set k" "k \<noteq> []" "trim k = k"
  shows "parse_line m (k @ '': '' @ ''null'') = m(k \<mapsto> JNull)"
  using assms(3) unfolding parse_line_field [OF assms(1,2)]
  by (simp add: trim_def is_space_def)

lemma parse_line_bool:
  assumes "CHR '':'' \<notin> set k" "k \<noteq> []" "trim k = k"
  shows "parse_line m (k @ '': '' @ (if b then ''true'' else ''false'')) = m(k \<mapsto> JBool b)"
  using assms(3) unfolding parse_line_field [OF assms(1,2)]
  by (simp add: trim_def is_space_def)

text \<open>
  Claim C2 as stated fails: a note whose title ends in a space, with a body that has no
  line beginning with the delimiter, is decoded with the space trimmed from its title.
\<close>

theorem codec_trimmed_title_counterexample:
  "no_delimiter_line (content (mk_note ''1'' ''Plan '' ''body'')) \<and>
   title_m (meta (parseFrontmatter (stringifyFrontmatter (mk_note ''1'' ''Plan '' ''body'')))) =
     Some (JStr ''Plan'') \<and>
   title_m (meta (parseFrontmatter (stringifyFrontmatter (mk_note ''1'' ''Plan '' ''body'')))) \<noteq>
     Some (JStr (title (mk_note ''1'' ''Plan '' ''body'')))"
  by code_simp

text \<open>
  Claim C2, amended: for every note whose identifier, title and two timestamps, and whose
  parent identifier when it has one, are plain (no line feed, no white space at either
  end, not one of the literals \<open>true\<close>, \<open>false\<close>, \<open>null\<close>; the parent identifier
  not empty), decoding the encoded note gives back the identifier, the title, the
  timestamps and the parent identifier (\<open>null\<close> for none) as they are, the favourite
  flag as a boolean (\<open>false\<close> when it is unset), and the body exactly. The body may be any
  text.
\<close>

theorem codec_round_trip:
  assumes "plain (id_n n)" "plain (title n)" "plain (createdAt n)" "plain (updatedAt n)"
    and "\<forall>p. parentId n = Some p \<longrightarrow> plain p \<and> p \<noteq> []"
  shows "parseFrontmatter (stringifyFrontmatter n) =
           \<lparr>meta = \<lparr>id_m = Some (JStr (id_n n)), title_m = Some (JStr (title n)),
                    createdAt_m = Some (JStr (createdAt n)),
                    updatedAt_m = Some (JStr (updatedAt n)),
                    parentId_m = Some (case parentId n of None \<Rightarrow> JNull | Some p \<Rightarrow> JStr p),
                    isFavorite_m = Some (JBool (isFavorite n = Some True))\<rparr>,
            content_m = content n\<rparr>"
proof -
  define P where "P = (case parentId n of None \<Rightarrow> ''null'' | Some p \<Rightarrow> if p = [] then ''null'' else p)"
  define F where "F = (if isFavorite n = Some True then ''true'' else ''false'')"
  define ls where "ls = [''id: '' @ id_n n, ''title: '' @ title n, ''created: '' @ createdAt n,
     ''updated: '' @ updatedAt n, ''parentId: '' @ P, ''isFavorite: '' @ F]"
  have enc: "stringifyFrontmatter n =
      ''---'' @ [LF] @ (join LF ls @ [LF] @ ''---'' @ [LF] @ content n)"
    by (simp add: stringifyFrontmatter_def ls_def P_def F_def)
  have P_LF: "LF \<notin> set P"
    using assms(5) by (auto simp: P_def plain_def LF_def split: option.splits)
  have F_LF: "LF \<notin> set F"
    by (simp add: F_def LF_def)
  have lines: "\<forall>l \<in> set ls. LF \<notin> set l \<and> l \<noteq> [] \<and> hd l \<noteq> CHR ''-''"
    using assms(1-4) P_LF F_LF by (simp add: ls_def plain_def) (simp add: LF_def)
  have "ls \<noteq> []"
    by (simp add: ls_def)
  have m: "match_frontmatter (stringifyFrontmatter n) = Some (join LF ls, content n)"
    unfolding enc match_frontmatter_def
    using find_delim_lines [OF lines \<open>ls \<noteq> []\<close>, of "content n"] by (simp del: find_delim.simps)
  have sp: "split_on LF (join LF ls) = ls"
    using lines \<open>ls \<noteq> []\<close> by (intro split_on_join) auto
  have k: "trim ''id'' = ''id''" "trim ''title'' = ''title''" "trim ''created'' = ''created''"
    "trim ''updated'' = ''updated''" "trim ''parentId'' = ''parentId''"
    "trim ''isFavorite'' = ''isFavorite''"
    by (simp_all add: trim_def is_space_def)
  have pl: "parse_line m (''parentId: '' @ P) =
      m(''parentId'' \<mapsto> (case parentId n of None \<Rightarrow> JNull | Some p \<Rightarrow> JStr p))" for m
  proof (cases "parentId n")
    case None
    then show ?thesis
      using parse_line_null [of "''parentId''" m] k by (simp add: P_def)
  next
    case (Some p)
    then have "plain p" "p \<noteq> []" using assms(5) by auto
    then show ?thesis
      using parse_line_plain [of "''parentId''" p m] k Some by (simp add: P_def)
  qed
  have fl: "parse_line m (''isFavorite: '' @ F) =
      m(''isFavorite'' \<mapsto> JBool (isFavorite n = Some True))" for m
    using parse_line_bool [of "''isFavorite''" m "isFavorite n = Some True"] k
    by (simp add: F_def)
  have f1: "parse_line m (''id: '' @ id_n n) = m(''id'' \<mapsto> JStr (id_n n))" for m
    using parse_line_plain [of "''id''" "id_n n" m] k assms(1) by simp
  have f2: "parse_line m (''title: '' @ title n) = m(''title'' \<mapsto> JStr (title n))" for m
    using parse_line_plain [of "''title''" "title n" m] k assms(2) by simp
  have f3: "parse_line m (''created: '' @ createdAt n) = m(''created'' \<mapsto> JStr (createdAt n))" for m
    using parse_line_plain [of "''created''" "createdAt n" m] k assms(3) by simp
  have f4: "parse_line m (''updated: '' @ updatedAt n) = m(''updated'' \<mapsto> JStr (updatedAt n))" for m
    using parse_line_plain [of "''updated''" "updatedAt n" m] k assms(4) by simp
  have fold: "foldl parse_line Map.empty ls =
      [''id'' \<mapsto> JStr (id_n n), ''title'' \<mapsto> JStr (title n),
       ''created'' \<mapsto> JStr (createdAt n), ''updated'' \<mapsto> JStr (updatedAt n),
       ''parentId'' \<mapsto> (case parentId n of None \<Rightarrow> JNull | Some p \<Rightarrow> JStr p),
       ''isFavorite'' \<mapsto> JBool (isFavorite n = Some True)]"
    unfolding ls_def foldl.simps f1 f2 f3 f4 pl fl ..
  show ?thesis
    by (simp add: parseFrontmatter_def m sp fold Let_def del: foldl.simps)
qed


theorem codec_round_trip_witness:
  "parseFrontmatter (stringifyFrontmatter
     ((mk_note ''n1'' ''My: note'' (''text'' @ [LF] @ ''---'' @ [LF] @ ''more''))
        \<lparr>parentId := Some ''p0'', isFavorite := Some True\<rparr>)) =
   \<lparr>meta = \<lparr>id_m = Some (JStr ''n1''), title_m = Some (JStr ''My: note''),
            createdAt_m = Some (JStr ''2024-01-01T00:00:00.000Z''),
            updatedAt_m = Some (JStr ''2024-01-01T00:00:00.000Z''),
            parentId_m = Some (JStr ''p0''), isFavorite_m = Some (JBool True)\<rparr>,
    content_m = ''text'' @ [LF] @ ''---'' @ [LF] @ ''more''\<rparr>"
proof -
  let ?n = "(mk_note ''n1'' ''My: note'' (''text'' @ [LF] @ ''---'' @ [LF] @ ''more''))
        \<lparr>parentId := Some ''p0'', isFavorite := Some True\<rparr>"
  have h: "plain (id_n ?n)" "plain (title ?n)" "plain (createdAt ?n)" "plain (updatedAt ?n)"
    by code_simp+
  have "plain ''p0''"
    by code_simp
  then have p: "\<forall>p. parentId ?n = Some p \<longrightarrow> plain p \<and> p \<noteq> []"
    by (simp add: mk_note_def)
  show ?thesis
    using codec_round_trip [OF h p] by (simp add: mk_note_def)
qed

section \<open>Merge idempotence\<close>

lemma findIndex_None: "(findIndex P xs = None) = (\<forall>x \<in> set xs. \<not> P x)"
  by (induction xs) auto

lemma findIndex_Some: "findIndex P xs = Some i \<Longrightarrow> i < length xs \<and> P (xs ! i)"
  by (induction xs arbitrary: i) (auto split: if_splits)

lemma map_id_n_adopt:
  "i < length c \<Longrightarrow> map id_n (c[i := n\<lparr>id_n := id_n (c ! i)\<rparr>]) = map id_n c"
  by (simp add: map_update list_update_same_conv)

lemma merge_note_distinct:
  assumes "distinct (map id_n c)"
  shows "distinct (map id_n (merge_note c n))"
proof (cases "findIndex (\<lambda>e. id_n e = id_n n) c")
  case (Some i)
  then show ?thesis using assms by (simp add: merge_note_def)
next
  case None
  then have fresh: "id_n n \<notin> id_n ` set c"
    by (auto simp: findIndex_None)
  show ?thesis
  proof (cases "findIndex (\<lambda>e. title e = title n \<and> \<not> truthy (parentId e)) c")
    case None
    with \<open>findIndex (\<lambda>e. id_n e = id_n n) c = None\<close> fresh assms show ?thesis
      by (simp add: merge_note_def)
  next
    case (Some j)
    then have "j < length c" using findIndex_Some by fastforce
    with \<open>findIndex (\<lambda>e. id_n e = id_n n) c = None\<close> Some fresh assms show ?thesis
      by (simp add: merge_note_def map_id_n_adopt)
  qed
qed

lemma foldl_merge_note_distinct:
  "distinct (map id_n c) \<Longrightarrow> distinct (map id_n (foldl merge_note c ns))"
  by (induction ns arbitrary: c) (simp_all add: merge_note_distinct)

lemma sortNotes_distinct:
  "distinct (map id_n (sortNotes ts xs)) = distinct (map id_n xs)"
  by (simp add: sortNotes_def distinct_map)

lemma loadedNotes_merge_distinct:
  "distinct (map id_n prev) \<Longrightarrow> distinct (map id_n (loadedNotes ts initial False prev loaded))"
  by (simp add: loadedNotes_def Let_def sortNotes_distinct foldl_merge_note_distinct)

lemma merge_note_present:
  "id_n n \<in> id_n ` set c \<Longrightarrow> merge_note c n = c"
  by (cases "findIndex (\<lambda>e. id_n e = id_n n) c") (auto simp: merge_note_def findIndex_None)

lemma foldl_merge_note_present:
  "\<forall>n \<in> set ns. id_n n \<in> id_n ` set c \<Longrightarrow> foldl merge_note c ns = c"
  by (induction ns) (simp_all add: merge_note_present)


lemma sortNotes_idem: "sortNotes ts (sortNotes ts xs) = sortNotes ts xs"
  by (simp add: sortNotes_def sort_key_id_if_sorted)

lemma loadedNotes_merge_idem:
  assumes "\<forall>n \<in> set loaded. id_n n \<in> id_n ` set (loadedNotes ts initial False prev loaded)"
  shows "loadedNotes ts initial False (loadedNotes ts initial False prev loaded) loaded =
         loadedNotes ts initial False prev loaded"
proof (cases "sortNotes ts loaded = []")
  case True
  then show ?thesis by (simp add: loadedNotes_def)
next
  case False
  let ?M = "loadedNotes ts initial False prev loaded"
  have M: "?M = sortNotes ts (foldl merge_note prev (sortNotes ts loaded))"
    using False by (simp add: loadedNotes_def)
  have "\<forall>n \<in> set (sortNotes ts loaded). id_n n \<in> id_n ` set ?M"
    using assms by (simp add: sortNotes_def)
  then have "foldl merge_note ?M (sortNotes ts loaded) = ?M"
    by (rule foldl_merge_note_present)
  then have "loadedNotes ts initial False ?M loaded = sortNotes ts ?M"
    using False by (simp add: loadedNotes_def)
  also have "\<dots> = ?M"
    unfolding M by (rule sortNotes_idem)
  finally show ?thesis .
qed


text \<open>
  Claim C1, that merging the same batch a second time adds no note and changes no note,
  does not hold of the code. On the input below the first merge adopts the file's note under the
  identifier of the unsaved in-memory note of the same title; the second merge of the
  same batch then finds neither the file's identifier nor an unsaved note of that title,
  and appends the file's note again: the collection grows from one note to two, with the
  same title and body. The two lemmas above say what does hold: identifiers stay
  pairwise distinct, and a second merge changes nothing when every identifier of the
  batch is in the collection after the first.
\<close>

theorem merge_twice_adds_note:
  "loadedNotes ts initial False [unsaved_note] [file_note] = [file_note\<lparr>id_n := ''k3x9''\<rparr>] \<and>
   loadedNotes ts initial False (loadedNotes ts initial False [unsaved_note] [file_note]) [file_note] =
     [file_note\<lparr>id_n := ''k3x9''\<rparr>, file_note]"
proof -
  have first: "loadedNotes ts initial False [unsaved_note] [file_note] =
      [file_note\<lparr>id_n := ''k3x9''\<rparr>]"
    by (simp add: loadedNotes_def sortNotes_def merge_note_def unsaved_note_def file_note_def
        mk_note_def truthy_def)
  have "loadedNotes ts initial False [file_note\<lparr>id_n := ''k3x9''\<rparr>] [file_note] =
      [file_note\<lparr>id_n := ''k3x9''\<rparr>, file_note]"
    by (simp add: loadedNotes_def sortNotes_def merge_note_def file_note_def mk_note_def
        truthy_def)
  with first show ?thesis by simp
qed

section \<open>The timers\<close>

lemma cancelPending_fields [simp]:
  "notes_st (cancelPending k st) = notes_st st"
  "saveTimeoutRef (cancelPending k st) = saveTimeoutRef st"
  "nextTimer (cancelPending k st) = nextTimer st"
  "written (cancelPending k st) = written st"
  "queue (cancelPending k st) = queue st"
  by (simp_all add: cancelPending_def clearTimeout_def split: option.splits)

lemma timers_cancelPending:
  "timers (cancelPending k st) =
     (case map_of (saveTimeoutRef st) k of
        None \<Rightarrow> timers st
      | Some h \<Rightarrow> if h \<noteq> 0 then filter (\<lambda>(h', k', p). h' \<noteq> h) (timers st) else timers st)"
  by (simp add: cancelPending_def clearTimeout_def split: option.splits)

lemma schedule_fields [simp]:
  "notes_st (schedule k p st) = notes_st st"
  "written (schedule k p st) = written st"
  "queue (schedule k p st) = queue st"
  by (simp_all add: schedule_def)

lemma writeFileToDisk_fields [simp]:
  "notes_st (writeFileToDisk n st) = notes_st st"
  "timers (writeFileToDisk n st) = timers st"
  "saveTimeoutRef (writeFileToDisk n st) = saveTimeoutRef st"
  "nextTimer (writeFileToDisk n st) = nextTimer st"
  "written (writeFileToDisk n st) = written st @ [n]"
  "queue (writeFileToDisk n st) = queue st"
  by (simp_all add: writeFileToDisk_def)

lemma setNotes_fields [simp]:
  "notes_st (setNotes q st) = notes_st st"
  "timers (setNotes q st) = timers st"
  "saveTimeoutRef (setNotes q st) = saveTimeoutRef st"
  "nextTimer (setNotes q st) = nextTimer st"
  "written (setNotes q st) = written st"
  "queue (setNotes q st) = queue st @ [q]"
  by (simp_all add: setNotes_def)

lemma pending_cong: "timers st' = timers st \<Longrightarrow> pending st' k = pending st k"
  by (simp add: pending_def)

lemma unrecorded_cong:
  "timers st' = timers st \<Longrightarrow> saveTimeoutRef st' = saveTimeoutRef st \<Longrightarrow>
   unrecorded st' k = unrecorded st k"
  by (simp add: unrecorded_def)

lemma pending_schedule:
  "pending (schedule k p st) k' = (if k' = k then pending st k @ [p] else pending st k')"
  by (simp add: pending_def schedule_def)

lemma map_of_filter_other:
  "k' \<noteq> k \<Longrightarrow> map_of (filter (\<lambda>(k'', h). k'' \<noteq> k) r) k' = map_of r k'"
  by (induction r) auto

lemma mapWithState_snd:
  "snd (mapWithState f (x # xs) st) = snd (mapWithState f xs (snd (f x st)))"
  by (simp split: prod.splits)

lemma mapWithState_fst:
  "fst (mapWithState f (x # xs) st) = fst (f x st) # fst (mapWithState f xs (snd (f x st)))"
  by (simp split: prod.splits)

subsection \<open>What holds in every state\<close>

lemma timers_wf_cong:
  "timers st' = timers st \<Longrightarrow> saveTimeoutRef st' = saveTimeoutRef st \<Longrightarrow>
   nextTimer st' = nextTimer st \<Longrightarrow> timers_wf st' = timers_wf st"
  by (simp add: timers_wf_def)

lemma timers_wf_recorded:
  assumes "timers_wf st" "(h, k, p) \<in> set (timers st)" "map_of (saveTimeoutRef st) k' = Some h"
  shows "k' = k"
proof -
  have "(k', h) \<in> set (saveTimeoutRef st)"
    using assms(3) by (rule map_of_SomeD)
  then show ?thesis
    using assms(1,2) by (fastforce simp: timers_wf_def list_all_iff)
qed

lemma timers_wf_clearTimeout: "timers_wf st \<Longrightarrow> timers_wf (clearTimeout h st)"
  by (auto simp: timers_wf_def clearTimeout_def list_all_iff distinct_map_filter)

lemma timers_wf_cancelPending: "timers_wf st \<Longrightarrow> timers_wf (cancelPending k st)"
  by (simp add: cancelPending_def timers_wf_clearTimeout split: option.splits)

lemma timers_wf_schedule:
  assumes "timers_wf st"
  shows "timers_wf (schedule k p st)"
proof -
  let ?r = "saveTimeoutRef st" and ?n = "nextTimer st"
  let ?r' = "(k, ?n) # filter (\<lambda>(k', h). k' \<noteq> k) ?r"
  have ok: "distinct (map fst (timers st))"
    "\<forall>(h, k', q) \<in> set (timers st). h < ?n \<and> (\<forall>(k'', h') \<in> set ?r. h' = h \<longrightarrow> k'' = k')"
    "\<forall>(k', h) \<in> set ?r. 0 < h \<and> h < ?n" "0 < ?n"
    using assms by (auto simp: timers_wf_def list_all_iff)
  have "?n \<notin> fst ` set (timers st)"
    using ok(2) by fastforce
  then have 1: "distinct (map fst (timers st @ [(?n, k, p)]))"
    using ok(1) by simp
  have 2: "\<forall>(h, k', q) \<in> set (timers st @ [(?n, k, p)]).
             h < Suc ?n \<and> (\<forall>(k'', h') \<in> set ?r'. h' = h \<longrightarrow> k'' = k')"
    using ok(2,3) by (fastforce simp: less_Suc_eq)
  have 3: "\<forall>(k', h) \<in> set ?r'. 0 < h \<and> h < Suc ?n"
    using ok(3,4) by (auto simp: less_Suc_eq)
  show ?thesis
    unfolding timers_wf_def schedule_def using 1 2 3 by (simp add: list_all_iff)
qed

lemma pending_cancelPending_wf:
  assumes "timers_wf st"
  shows "pending (cancelPending k st) k' = (if k' = k then unrecorded st k else pending st k')"
proof (cases "map_of (saveTimeoutRef st) k")
  case None
  then show ?thesis
    by (simp add: pending_def unrecorded_def timers_cancelPending)
next
  case (Some h)
  have pos: "0 < h"
    using assms Some by (auto simp: timers_wf_def list_all_iff dest: map_of_SomeD)
  have key: "k'' = k" if "(h, k'', p) \<in> set (timers st)" for k'' p
    using timers_wf_recorded [OF assms that Some] by simp
  have "filter (\<lambda>(h', k'', p). k'' = k') (filter (\<lambda>(h', k'', p). h' \<noteq> h) (timers st)) =
        (if k' = k then filter (\<lambda>(h', k'', p). k'' = k \<and> Some h \<noteq> Some h') (timers st)
         else filter (\<lambda>(h', k'', p). k'' = k') (timers st))"
    using key by (auto intro!: filter_cong)
  then show ?thesis
    using Some pos by (simp add: pending_def unrecorded_def timers_cancelPending)
qed

lemma unrecorded_cancelPending:
  assumes "timers_wf st"
  shows "unrecorded (cancelPending k st) k' = unrecorded st k'"
proof (cases "map_of (saveTimeoutRef st) k")
  case None
  then show ?thesis
    by (simp add: unrecorded_def timers_cancelPending)
next
  case (Some h)
  have key: "k'' = k" if "(h, k'', p) \<in> set (timers st)" for k'' p
    using timers_wf_recorded [OF assms that Some] by simp
  have "filter (\<lambda>(h', k'', p). k'' = k' \<and> map_of (saveTimeoutRef st) k' \<noteq> Some h')
          (filter (\<lambda>(h', k'', p). h' \<noteq> h) (timers st)) =
        filter (\<lambda>(h', k'', p). k'' = k' \<and> map_of (saveTimeoutRef st) k' \<noteq> Some h') (timers st)"
    using key Some by (auto intro!: filter_cong)
  then show ?thesis
    using Some by (simp add: unrecorded_def timers_cancelPending)
qed

lemma unrecorded_schedule:
  assumes "timers_wf st"
  shows "unrecorded (schedule k p st) k' = (if k' = k then pending st k else unrecorded st k')"
proof -
  have fresh: "h \<noteq> nextTimer st" if "(h, k'', q) \<in> set (timers st)" for h k'' q
    using assms that by (auto simp: timers_wf_def list_all_iff)
  show ?thesis
  proof (cases "k' = k")
    case True
    have "filter (\<lambda>(h, k'', q). k'' = k \<and> Some (nextTimer st) \<noteq> Some h) (timers st) =
          filter (\<lambda>(h, k'', q). k'' = k) (timers st)"
      using fresh by (auto intro!: filter_cong)
    then show ?thesis
      using True by (simp add: unrecorded_def pending_def schedule_def)
  next
    case False
    then show ?thesis
      by (simp add: unrecorded_def schedule_def map_of_filter_other)
  qed
qed

lemma pending_reschedule_wf:
  "timers_wf st \<Longrightarrow>
   pending (schedule k p (cancelPending k st)) k' =
     (if k' = k then unrecorded st k @ [p] else pending st k')"
  by (simp add: pending_schedule pending_cancelPending_wf)

lemma unrecorded_reschedule:
  "timers_wf st \<Longrightarrow> unrecorded (schedule k p (cancelPending k st)) k' = unrecorded st k'"
  by (simp add: unrecorded_schedule timers_wf_cancelPending pending_cancelPending_wf
      unrecorded_cancelPending)

lemma timers_wf_refactorNote:
  "timers_wf st \<Longrightarrow> timers_wf (snd (refactorNote v now i sr A U n st))"
  by (simp add: refactorNote_def Let_def timers_wf_schedule timers_wf_cancelPending)

lemma timers_wf_mapWithState:
  "timers_wf st \<Longrightarrow> timers_wf (snd (mapWithState (refactorNote v now i sr A U) ns st))"
proof (induction ns arbitrary: st)
  case Nil
  then show ?case by simp
next
  case (Cons n ns)
  have "timers_wf (snd (refactorNote v now i sr A U n st))"
    using Cons.prems by (rule timers_wf_refactorNote)
  then show ?case
    unfolding mapWithState_snd by (rule Cons.IH)
qed

lemma updater_found:
  assumes "find (\<lambda>n. id_n n = i) (notes_st st) = Some A"
  shows "updater v now i u f st =
     (let U = applyUpdates A u now;
          tc = (case u_title u of None \<Rightarrow> False | Some t \<Rightarrow> t \<noteq> title A);
          cc = (case u_content u of None \<Rightarrow> False | Some c \<Rightarrow> c \<noteq> content A);
          mc = (case u_isFavorite u of None \<Rightarrow> False | Some b \<Rightarrow> Some b \<noteq> isFavorite A);
          st2 = (if v then
                   (if f \<or> mc then writeFileToDisk U st
                    else if tc then st
                    else if cc then schedule i U st
                    else st)
                 else st)
      in (case mapWithState (refactorNote v now i tc A U) (notes_st st) st2 of
            (ns', st3) \<Rightarrow> st3\<lparr>notes_st := ns'\<rparr>))"
  using assms by (simp add: updater_def)

lemma timers_wf_updater:
  assumes "timers_wf st"
  shows "timers_wf (updater v now i u f st)"
proof (cases "find (\<lambda>n. id_n n = i) (notes_st st)")
  case None
  then show ?thesis using assms by (simp add: updater_def)
next
  case (Some A)
  define U where "U = applyUpdates A u now"
  define tc where "tc = (case u_title u of None \<Rightarrow> False | Some t \<Rightarrow> t \<noteq> title A)"
  define cc where "cc = (case u_content u of None \<Rightarrow> False | Some c \<Rightarrow> c \<noteq> content A)"
  define mc where "mc = (case u_isFavorite u of None \<Rightarrow> False | Some b \<Rightarrow> Some b \<noteq> isFavorite A)"
  define st2 where "st2 = (if v then
                        (if f \<or> mc then writeFileToDisk U st
                         else if tc then st
                         else if cc then schedule i U st
                         else st)
                      else st)"
  have 2: "timers_wf st2"
    using assms
    by (auto simp: st2_def timers_wf_schedule timers_wf_cong [of "writeFileToDisk U st" st])
  obtain ns' st3 where m: "mapWithState (refactorNote v now i tc A U) (notes_st st) st2 = (ns', st3)"
    by (cases "mapWithState (refactorNote v now i tc A U) (notes_st st) st2")
  have "timers_wf st3"
    using timers_wf_mapWithState [OF 2, of v now i tc A U "notes_st st"] m by simp
  then have "timers_wf (st3\<lparr>notes_st := ns'\<rparr>)"
    by (simp add: timers_wf_def)
  moreover have "updater v now i u f st = st3\<lparr>notes_st := ns'\<rparr>"
    using m unfolding updater_found [OF Some] Let_def U_def tc_def cc_def mc_def st2_def
    by simp
  ultimately show ?thesis by simp
qed

lemma timers_wf_updateNote: "timers_wf st \<Longrightarrow> timers_wf (updateNote v i u f st)"
  using timers_wf_cancelPending [of st i]
  by (simp add: updateNote_def timers_wf_cong [of "setNotes q (cancelPending i st)" "cancelPending i st" for q])

lemma timers_wf_runNext:
  assumes "timers_wf st"
  shows "timers_wf (runNext strict now st)"
proof (cases "queue st")
  case Nil
  then show ?thesis using assms by (simp add: runNext_def)
next
  case (Cons q qs)
  let ?st0 = "st\<lparr>queue := qs\<rparr>"
  have 0: "timers_wf ?st0"
    using assms by (simp add: timers_wf_def)
  show ?thesis
  proof (cases q)
    case (QNotes g)
    then show ?thesis
      using Cons 0 by (simp add: runNext_def Let_def timers_wf_def)
  next
    case (QUpdate v i u f)
    have 1: "timers_wf (updater v now i u f ?st0)"
      using 0 by (rule timers_wf_updater)
    then have "timers_wf ((updater v now i u f ?st0)\<lparr>notes_st := notes_st ?st0\<rparr>)"
      by (simp add: timers_wf_def)
    then have "timers_wf (updater v now i u f ((updater v now i u f ?st0)\<lparr>notes_st := notes_st ?st0\<rparr>))"
      by (rule timers_wf_updater)
    then show ?thesis
      using Cons QUpdate 1 by (simp add: runNext_def Let_def)
  qed
qed

lemma timers_wf_timerFires: "timers_wf st \<Longrightarrow> timers_wf (timerFires h st)"
  by (auto simp: timerFires_def timers_wf_clearTimeout
      timers_wf_cong [of "writeFileToDisk p (clearTimeout h st)" "clearTimeout h st" for p]
      split: option.splits)

lemma timers_wf_writeCompleted: "timers_wf st \<Longrightarrow> timers_wf (writeCompleted n st)"
  by (simp add: writeCompleted_def timers_wf_cong [of "setNotes q st" st for q])

lemma timers_wf_loadFromVault:
  assumes "timers_wf st"
  shows "timers_wf (loadFromVault ts initial replace loaded st)"
proof -
  let ?st1 = "st\<lparr>timers := filter (\<lambda>(h, k, p). h \<notin> set (map snd (saveTimeoutRef st))) (timers st),
                 saveTimeoutRef := []\<rparr>"
  have "timers_wf ?st1"
    using assms by (auto simp: timers_wf_def list_all_iff distinct_map_filter)
  then show ?thesis
    using assms
    by (simp add: loadFromVault_def Let_def timers_wf_cong [of "setNotes q s" s for q s])
qed

lemma reachable_timers_wf: "reachable st \<Longrightarrow> timers_wf st"
proof (induction rule: reachable.induct)
  case (start ns)
  show ?case by (simp add: timers_wf_def initialApp_def)
next
  case (other st g)
  then show ?case by (simp add: timers_wf_cong [of "setNotes (QNotes g) st" st])
qed (simp_all add: timers_wf_updateNote timers_wf_runNext timers_wf_timerFires
    timers_wf_writeCompleted timers_wf_loadFromVault)

subsection \<open>The discipline of the debounce\<close>

lemma timers_ok_wf: "timers_ok st \<Longrightarrow> timers_wf st"
proof -
  assume ok: "timers_ok st"
  have rec: "map_of (saveTimeoutRef st) k = Some h" if "(h, k, p) \<in> set (timers st)" for h k p
    using ok that by (auto simp: timers_ok_def list_all_iff)
  have bound: "0 < h \<and> h < nextTimer st" if "(k, h) \<in> set (saveTimeoutRef st)" for h k
    using ok that by (auto simp: timers_ok_def list_all_iff)
  have d: "distinct (map snd (saveTimeoutRef st))"
    using ok by (simp add: timers_ok_def)
  have 1: "h < nextTimer st" if "(h, k, p) \<in> set (timers st)" for h k p
    using rec [OF that] bound by (auto dest: map_of_SomeD)
  have 2: "k' = k" if "(h, k, p) \<in> set (timers st)" "(k', h) \<in> set (saveTimeoutRef st)" for h k p k'
  proof -
    have "(k, h) \<in> set (saveTimeoutRef st)"
      using rec [OF that(1)] by (rule map_of_SomeD)
    with d that(2) show ?thesis
      by (metis distinct_map inj_onD prod.inject snd_conv)
  qed
  show ?thesis
    unfolding timers_wf_def list_all_iff using ok 1 2 bound
    by (auto simp: timers_ok_def)
qed

lemma timers_ok_unrecorded: "timers_ok st \<Longrightarrow> unrecorded st k = []"
  by (auto simp: timers_ok_def unrecorded_def list_all_iff filter_empty_conv)

lemma distinct_filter_le_one:
  "distinct (map f xs) \<Longrightarrow> length (filter (\<lambda>x. f x = a) xs) \<le> 1"
proof (induction xs)
  case Nil
  show ?case by simp
next
  case (Cons x xs)
  then show ?case
    by (cases "f x = a") (auto simp: filter_empty_conv image_iff)
qed

lemma timers_ok_pending_le_one:
  assumes "timers_ok st"
  shows "length (pending st k) \<le> 1"
proof (cases "map_of (saveTimeoutRef st) k")
  case None
  then have "filter (\<lambda>(h, k'', p). k'' = k) (timers st) = []"
    using assms by (auto simp: timers_ok_def list_all_iff filter_empty_conv)
  then show ?thesis by (simp add: pending_def)
next
  case (Some h)
  let ?K = "\<lambda>(h', k'', p). k'' = k" and ?H = "\<lambda>x. fst x = h"
  have eq: "filter ?K (timers st) = filter ?K (filter ?H (timers st))"
    using assms Some by (auto simp: timers_ok_def list_all_iff intro!: filter_cong)
  have "length (pending st k) = length (filter ?K (timers st))"
    by (simp add: pending_def)
  also have "\<dots> = length (filter ?K (filter ?H (timers st)))"
    using eq by (rule arg_cong)
  also have "\<dots> \<le> length (filter ?H (timers st))"
    by (rule length_filter_le)
  also have "\<dots> \<le> 1"
    using assms by (intro distinct_filter_le_one) (simp add: timers_ok_def)
  finally show ?thesis .
qed
section \<open>Debounced writes\<close>

subsection \<open>When every updater runs before the next call\<close>

lemma timers_ok_cong:
  "timers st' = timers st \<Longrightarrow> saveTimeoutRef st' = saveTimeoutRef st \<Longrightarrow>
   nextTimer st' = nextTimer st \<Longrightarrow> timers_ok st' = timers_ok st"
  by (simp add: timers_ok_def)

lemma timers_ok_cancelPending: "timers_ok st \<Longrightarrow> timers_ok (cancelPending k st)"
  by (auto simp: timers_ok_def timers_cancelPending list_all_iff distinct_map_filter
      split: option.splits)

lemma pending_cancelPending:
  "timers_ok st \<Longrightarrow> pending (cancelPending k st) k' = (if k' = k then [] else pending st k')"
  by (simp add: pending_cancelPending_wf timers_ok_wf timers_ok_unrecorded)

lemma timers_ok_schedule:
  assumes "timers_ok st" "pending st k = []"
  shows "timers_ok (schedule k p st)"
proof -
  let ?r = "saveTimeoutRef st" and ?n = "nextTimer st"
  let ?r' = "(k, ?n) # filter (\<lambda>(k', h). k' \<noteq> k) ?r"
  have ok: "\<forall>(h, k', q) \<in> set (timers st). map_of ?r k' = Some h"
    "distinct (map fst (timers st))" "distinct (map snd ?r)"
    "\<forall>(k', h) \<in> set ?r. 0 < h \<and> h < ?n" "0 < ?n"
    using assms(1) by (auto simp: timers_ok_def list_all_iff)
  have nokey: "k' \<noteq> k" if "(h, k', q) \<in> set (timers st)" for h k' q
    using assms(2) that by (auto simp: pending_def filter_empty_conv)
  have tbound: "h < ?n" if "(h, k', q) \<in> set (timers st)" for h k' q
  proof -
    have "map_of ?r k' = Some h" using ok(1) that by auto
    then have "(k', h) \<in> set ?r" by (rule map_of_SomeD)
    then show ?thesis using ok(4) by auto
  qed
  have 1: "\<forall>(h, k', q) \<in> set (timers st @ [(?n, k, p)]). map_of ?r' k' = Some h"
    using ok(1) nokey by (auto simp: map_of_filter_other)
  have "?n \<notin> fst ` set (timers st)"
    using tbound by fastforce
  then have 2: "distinct (map fst (timers st @ [(?n, k, p)]))"
    using ok(2) by simp
  have "?n \<notin> snd ` set ?r"
    using ok(4) by fastforce
  then have 3: "distinct (map snd ?r')"
    using ok(3) by (auto simp: distinct_map_filter)
  have 4: "\<forall>(k', h) \<in> set ?r'. 0 < h \<and> h < Suc ?n"
    using ok(4,5) by (auto simp: less_Suc_eq)
  show ?thesis
    unfolding timers_ok_def schedule_def using 1 2 3 4 by (simp add: list_all_iff)
qed

lemma timers_ok_reschedule: "timers_ok st \<Longrightarrow> timers_ok (schedule k p (cancelPending k st))"
  by (simp add: timers_ok_schedule timers_ok_cancelPending pending_cancelPending)

lemma timers_ok_refactorNote:
  "timers_ok st \<Longrightarrow> timers_ok (snd (refactorNote v now i sr A U n st))"
  by (simp add: refactorNote_def Let_def timers_ok_reschedule)

lemma timers_ok_mapWithState:
  "timers_ok st \<Longrightarrow> timers_ok (snd (mapWithState (refactorNote v now i sr A U) ns st))"
proof (induction ns arbitrary: st)
  case Nil
  then show ?case by simp
next
  case (Cons n ns)
  have "timers_ok (snd (refactorNote v now i sr A U n st))"
    using Cons.prems by (rule timers_ok_refactorNote)
  then show ?case
    unfolding mapWithState_snd by (rule Cons.IH)
qed

text \<open>
  The updater of a call keeps the discipline when it runs right after the call: the
  timer recorded for the note has just been cleared.
\<close>

lemma timers_ok_updater:
  assumes "timers_ok st"
  shows "timers_ok (updater v now i u f (cancelPending i st))"
proof -
  let ?st1 = "cancelPending i st"
  have 1: "timers_ok ?st1"
    using assms by (rule timers_ok_cancelPending)
  show ?thesis
  proof (cases "find (\<lambda>n. id_n n = i) (notes_st ?st1)")
    case None
    then show ?thesis using 1 by (simp add: updater_def)
  next
    case (Some A)
    define U where "U = applyUpdates A u now"
    define tc where "tc = (case u_title u of None \<Rightarrow> False | Some t \<Rightarrow> t \<noteq> title A)"
    define cc where "cc = (case u_content u of None \<Rightarrow> False | Some c \<Rightarrow> c \<noteq> content A)"
    define mc where "mc = (case u_isFavorite u of None \<Rightarrow> False | Some b \<Rightarrow> Some b \<noteq> isFavorite A)"
    define st2 where "st2 = (if v then
                          (if f \<or> mc then writeFileToDisk U ?st1
                           else if tc then ?st1
                           else if cc then schedule i U ?st1
                           else ?st1)
                        else ?st1)"
    have "pending ?st1 i = []"
      using assms by (simp add: pending_cancelPending)
    then have 2: "timers_ok st2"
      using 1 by (auto simp: st2_def timers_ok_schedule timers_ok_cong [of "writeFileToDisk U ?st1" ?st1])
    obtain ns' st3 where m: "mapWithState (refactorNote v now i tc A U) (notes_st ?st1) st2 = (ns', st3)"
      by (cases "mapWithState (refactorNote v now i tc A U) (notes_st ?st1) st2")
    have "timers_ok st3"
      using timers_ok_mapWithState [OF 2, of v now i tc A U "notes_st ?st1"] m by simp
    then have "timers_ok (st3\<lparr>notes_st := ns'\<rparr>)"
      by (simp add: timers_ok_def)
    moreover have "updater v now i u f ?st1 = st3\<lparr>notes_st := ns'\<rparr>"
      using m unfolding updater_found [OF Some] Let_def U_def tc_def cc_def mc_def st2_def
      by simp
    ultimately show ?thesis by simp
  qed
qed

lemma prompt_update:
  assumes "queue st = []"
  shows "runNext False now (updateNote v i u f st) = updater v now i u f (cancelPending i st)"
proof -
  have "queue (cancelPending i st) = []"
    using assms by simp
  then have e: "(setNotes (QUpdate v i u f) (cancelPending i st))\<lparr>queue := []\<rparr> =
      cancelPending i st"
    by (cases "cancelPending i st") (simp add: setNotes_def)
  have "runNext False now (updateNote v i u f st) =
      updater v now i u f ((setNotes (QUpdate v i u f) (cancelPending i st))\<lparr>queue := []\<rparr>)"
    using assms by (simp add: runNext_def updateNote_def Let_def)
  then show ?thesis
    unfolding e .
qed

lemma mapWithState_no_rename:
  "mapWithState (refactorNote v now i False A U) ns st =
     (map (\<lambda>n. if id_n n = i then U else n) ns, st)"
  by (induction ns) (simp_all add: refactorNote_def)

lemma find_map_replace:
  "find (\<lambda>n. id_n n = i) ns = Some A \<Longrightarrow> id_n U = i \<Longrightarrow>
   find (\<lambda>n. id_n n = i) (map (\<lambda>n. if id_n n = i then U else n) ns) = Some U"
  by (induction ns) (auto split: if_splits)

lemma find_id: "find (\<lambda>n. id_n n = i) ns = Some A \<Longrightarrow> id_n A = i"
  by (induction ns) (auto split: if_splits)

lemma content_update_step:
  fixes now :: string
  assumes ok: "timers_ok st" and q: "queue st = []"
    and A: "find (\<lambda>n. id_n n = i) (notes_st st) = Some A"
    and c: "c \<noteq> content A"
  defines "U \<equiv> applyUpdates A (contentUpdate c) now"
  defines "st' \<equiv> runNext False now (updateNote True i (contentUpdate c) False st)"
  shows "pending st' i = [U]" "written st' = written st" "timers_ok st'" "queue st' = []"
    "find (\<lambda>n. id_n n = i) (notes_st st') = Some U" "content U = c"
proof -
  have idU: "id_n U = i"
    using find_id [OF A] by (simp add: U_def applyUpdates_def contentUpdate_def)
  have A1: "find (\<lambda>n. id_n n = i) (notes_st (cancelPending i st)) = Some A"
    using A by simp
  have st': "st' = (schedule i U (cancelPending i st))
       \<lparr>notes_st := map (\<lambda>n. if id_n n = i then U else n) (notes_st st)\<rparr>"
    unfolding st'_def prompt_update [OF q] updater_found [OF A1] Let_def
    using c by (simp add: mapWithState_no_rename contentUpdate_def U_def)
  show "pending st' i = [U]"
    using ok by (simp add: st' pending_schedule pending_cancelPending
        pending_cong [of "_\<lparr>notes_st := _\<rparr>" "schedule i U (cancelPending i st)"])
  show "written st' = written st"
    by (simp add: st')
  show "timers_ok st'"
    unfolding st'_def prompt_update [OF q] using ok by (rule timers_ok_updater)
  show "queue st' = []"
    using q by (simp add: st')
  show "find (\<lambda>n. id_n n = i) (notes_st st') = Some U"
    using find_map_replace [OF A idU] by (simp add: st')
  show "content U = c"
    by (simp add: U_def applyUpdates_def contentUpdate_def)
qed

text \<open>
  So three changes of the body of one note, each with its updater run once before the
  next call, leave one pending write, which carries the last body.
\<close>

lemma prompt_updates_debounce:
  assumes ok: "timers_ok st" and q: "queue st = []"
    and A: "find (\<lambda>n. id_n n = k) (notes_st st) = Some A"
    and c: "c1 \<noteq> content A" "c2 \<noteq> c1" "c3 \<noteq> c2"
  shows "map content (pending
      (runNext False t3 (updateNote True k (contentUpdate c3) False
        (runNext False t2 (updateNote True k (contentUpdate c2) False
          (runNext False t1 (updateNote True k (contentUpdate c1) False st)))))) k) = [c3]"
proof -
  note s1 = content_update_step [OF ok q A c(1), of t1]
  have c2: "c2 \<noteq> content (applyUpdates A (contentUpdate c1) t1)"
    using c(2) s1(6) by simp
  note s2 = content_update_step [OF s1(3) s1(4) s1(5) c2, of t2]
  have c3: "c3 \<noteq> content (applyUpdates (applyUpdates A (contentUpdate c1) t1) (contentUpdate c2) t2)"
    using c(3) s2(6) by simp
  note s3 = content_update_step [OF s2(3) s2(4) s2(5) c3, of t3]
  show ?thesis
    unfolding s3(1) using s3(6) by simp
qed

subsection \<open>When the updaters wait in the queue\<close>

text \<open>
  Claim C8 fails in the code. \<^verbatim>\<open>updateNote\<close> clears the timer recorded for the note
  when it is called, but sets the new timer inside the updater it hands to \<^verbatim>\<open>setNotes\<close>,
  which React runs later; the rewriting of another note, in the same updater, clears and
  sets in one place. With a vault connected, take one note with an empty body and three
  calls that set its body to \<open>a\<close>, \<open>ab\<close> and \<open>abc\<close>.

  \<^item> When the first updater runs at once and the second and third calls come before
    their updaters run, the second call clears the timer of the first, the third call
    finds the same, cleared handle, and the two updaters then set a timer each: two
    writes are pending for the note, with the bodies \<open>ab\<close> and \<open>abc\<close>, and both reach
    the vault when the timers expire.
  \<^item> When all three calls come before any updater runs, three writes are pending.
  \<^item> Under \<^verbatim>\<open>StrictMode\<close> a single call leaves two pending writes, since the updater
    runs twice and the second run overwrites the handle of the first without clearing it;
    the three calls, each with its updater run before the next call, leave four.
\<close>

theorem debounce_queued_updaters_leave_stale_writes:
  "map content (pending
     (runNext False ''t3'' (runNext False ''t2''
        (updateNote True ''n1'' (contentUpdate ''abc'') False
          (updateNote True ''n1'' (contentUpdate ''ab'') False
            (runNext False ''t1''
              (updateNote True ''n1'' (contentUpdate ''a'') False
                (initialApp [mk_note ''n1'' ''Diary'' ''''])))))))
     ''n1'') = [''ab'', ''abc''] \<and>
   map content (written
     (timerFires 3 (timerFires 2
       (runNext False ''t3'' (runNext False ''t2''
          (updateNote True ''n1'' (contentUpdate ''abc'') False
            (updateNote True ''n1'' (contentUpdate ''ab'') False
              (runNext False ''t1''
                (updateNote True ''n1'' (contentUpdate ''a'') False
                  (initialApp [mk_note ''n1'' ''Diary'' '''']))))))))))
     = [''ab'', ''abc''] \<and>
   map content (pending
     (runNext False ''t3'' (runNext False ''t2'' (runNext False ''t1''
        (updateNote True ''n1'' (contentUpdate ''abc'') False
          (updateNote True ''n1'' (contentUpdate ''ab'') False
            (updateNote True ''n1'' (contentUpdate ''a'') False
              (initialApp [mk_note ''n1'' ''Diary'' ''''])))))))
     ''n1'') = [''a'', ''ab'', ''abc''] \<and>
   map content (pending
     (runNext True ''t1''
        (updateNote True ''n1'' (contentUpdate ''a'') False
          (initialApp [mk_note ''n1'' ''Diary'' ''''])))
     ''n1'') = [''a'', ''a''] \<and>
   map content (pending
     (runNext True ''t3'' (updateNote True ''n1'' (contentUpdate ''abc'') False
        (runNext True ''t2'' (updateNote True ''n1'' (contentUpdate ''ab'') False
           (runNext True ''t1'' (updateNote True ''n1'' (contentUpdate ''a'') False
              (initialApp [mk_note ''n1'' ''Diary'' '''']))))))) ''n1'')
     = [''a'', ''ab'', ''abc'', ''abc'']"
  by code_simp
section \<open>Renaming a note: the other notes\<close>

lemma refactorNote_hit:
  assumes "id_n n \<noteq> a" "title A \<noteq> []" "title U \<noteq> []"
    "occurs (''[['' @ title A @ '']]'') (content n)"
  shows "refactorNote v now a True A U n st =
     (n\<lparr>content := replaceAll (''[['' @ title A @ '']]'') (''[['' @ title U @ '']]'') [] (content n),
        updatedAt := now\<rparr>,
      if v then schedule (id_n n)
                  (n\<lparr>content := replaceAll (''[['' @ title A @ '']]'') (''[['' @ title U @ '']]'') []
                                   (content n),
                     updatedAt := now\<rparr>)
                  (cancelPending (id_n n) st)
      else st)"
  using assms by (simp add: refactorNote_def Let_def)

lemma refactorNote_miss:
  assumes "id_n n \<noteq> a"
    "\<not> (title A \<noteq> [] \<and> title U \<noteq> [] \<and> occurs (''[['' @ title A @ '']]'') (content n))"
  shows "refactorNote v now a sr A U n st = (n, st)"
  using assms by (auto simp: refactorNote_def)

lemma refactorNote_fst_indep:
  "fst (refactorNote v now a sr A U n st) = fst (refactorNote v now a sr A U n st')"
  by (simp add: refactorNote_def Let_def)

lemma refactorNote_pending:
  assumes "timers_wf st"
  shows "pending (snd (refactorNote v now a sr A U n st)) k =
     (if k = id_n n \<and> v \<and> id_n n \<noteq> a \<and> sr \<and> title A \<noteq> [] \<and> title U \<noteq> [] \<and>
         occurs (''[['' @ title A @ '']]'') (content n)
      then unrecorded st k @ [fst (refactorNote v now a sr A U n s0)] else pending st k)"
  using assms by (simp add: refactorNote_def Let_def pending_reschedule_wf)

lemma refactorNote_unrecorded:
  assumes "timers_wf st"
  shows "unrecorded (snd (refactorNote v now a sr A U n st)) k = unrecorded st k"
  using assms by (simp add: refactorNote_def Let_def unrecorded_reschedule)

lemma mapWithState_notes:
  "fst (mapWithState (refactorNote v now a sr A U) ns st) =
   map (\<lambda>n. fst (refactorNote v now a sr A U n s0)) ns"
proof (induction ns arbitrary: st)
  case Nil
  show ?case by simp
next
  case (Cons n ns)
  have "fst (refactorNote v now a sr A U n st) = fst (refactorNote v now a sr A U n s0)"
    by (rule refactorNote_fst_indep)
  then show ?case
    unfolding mapWithState_fst Cons.IH by simp
qed

lemma mapWithState_unrecorded:
  assumes "timers_wf st"
  shows "unrecorded (snd (mapWithState (refactorNote v now a sr A U) ns st)) k = unrecorded st k"
  using assms
proof (induction ns arbitrary: st)
  case Nil
  show ?case by simp
next
  case (Cons n ns)
  let ?st1 = "snd (refactorNote v now a sr A U n st)"
  have "timers_wf ?st1"
    using Cons.prems by (rule timers_wf_refactorNote)
  then have "unrecorded (snd (mapWithState (refactorNote v now a sr A U) ns ?st1)) k =
      unrecorded ?st1 k"
    by (rule Cons.IH)
  also have "\<dots> = unrecorded st k"
    using Cons.prems by (rule refactorNote_unrecorded)
  finally show ?case
    unfolding mapWithState_snd .
qed

lemma mapWithState_pending_other:
  assumes "timers_wf st" "k \<notin> id_n ` set ns"
  shows "pending (snd (mapWithState (refactorNote v now a sr A U) ns st)) k = pending st k"
  using assms
proof (induction ns arbitrary: st)
  case Nil
  show ?case by simp
next
  case (Cons n ns)
  let ?st1 = "snd (refactorNote v now a sr A U n st)"
  have ok1: "timers_wf ?st1"
    using Cons.prems(1) by (rule timers_wf_refactorNote)
  have k: "k \<notin> id_n ` set ns" "k \<noteq> id_n n"
    using Cons.prems(2) by auto
  have "pending (snd (mapWithState (refactorNote v now a sr A U) ns ?st1)) k = pending ?st1 k"
    using ok1 k(1) by (rule Cons.IH)
  also have "\<dots> = pending st k"
    using k(2) refactorNote_pending [OF Cons.prems(1), of v now a sr A U n k] by simp
  finally show ?case
    unfolding mapWithState_snd .
qed

lemma mapWithState_pending:
  assumes "timers_wf st" "distinct (map id_n ns)" "n \<in> set ns"
  shows "pending (snd (mapWithState (refactorNote v now a sr A U) ns st)) (id_n n) =
     (if v \<and> id_n n \<noteq> a \<and> sr \<and> title A \<noteq> [] \<and> title U \<noteq> [] \<and>
         occurs (''[['' @ title A @ '']]'') (content n)
      then unrecorded st (id_n n) @ [fst (refactorNote v now a sr A U n s0)]
      else pending st (id_n n))"
  using assms
proof (induction ns arbitrary: st)
  case Nil
  then show ?case by simp
next
  case (Cons m ns)
  let ?st1 = "snd (refactorNote v now a sr A U m st)"
  let ?R = "(if v \<and> id_n n \<noteq> a \<and> sr \<and> title A \<noteq> [] \<and> title U \<noteq> [] \<and>
         occurs (''[['' @ title A @ '']]'') (content n)
      then unrecorded st (id_n n) @ [fst (refactorNote v now a sr A U n s0)]
      else pending st (id_n n))"
  have ok1: "timers_wf ?st1"
    using Cons.prems(1) by (rule timers_wf_refactorNote)
  have u1: "unrecorded ?st1 (id_n n) = unrecorded st (id_n n)"
    using Cons.prems(1) by (rule refactorNote_unrecorded)
  show ?case
  proof (cases "n = m")
    case True
    then have "id_n n \<notin> id_n ` set ns"
      using Cons.prems(2) by auto
    with ok1 have "pending (snd (mapWithState (refactorNote v now a sr A U) ns ?st1)) (id_n n) =
        pending ?st1 (id_n n)"
      by (rule mapWithState_pending_other)
    also have "\<dots> = ?R"
      unfolding True
      using refactorNote_pending [OF Cons.prems(1), of v now a sr A U m "id_n m" s0] by simp
    finally show ?thesis
      unfolding mapWithState_snd .
  next
    case False
    then have n: "n \<in> set ns" "id_n n \<noteq> id_n m" "distinct (map id_n ns)"
      using Cons.prems(2,3) by (auto simp: image_iff)
    have p1: "pending ?st1 (id_n n) = pending st (id_n n)"
      using n(2) refactorNote_pending [OF Cons.prems(1), of v now a sr A U m "id_n n"] by simp
    have "pending (snd (mapWithState (refactorNote v now a sr A U) ns ?st1)) (id_n n) =
      (if v \<and> id_n n \<noteq> a \<and> sr \<and> title A \<noteq> [] \<and> title U \<noteq> [] \<and>
         occurs (''[['' @ title A @ '']]'') (content n)
      then unrecorded ?st1 (id_n n) @ [fst (refactorNote v now a sr A U n s0)]
      else pending ?st1 (id_n n))"
      using ok1 n(3) n(1) by (rule Cons.IH)
    also have "\<dots> = ?R"
      unfolding p1 u1 ..
    finally show ?thesis
      unfolding mapWithState_snd .
  qed
qed

text \<open>
  The updater of a call that changes the title of the note \<open>a\<close>, run in a state \<open>st\<close>:
  what it does to another note \<open>n\<close> and to the writes pending for it.
\<close>

lemma updater_rename_other:
  fixes now :: string and v f :: bool
  assumes ok: "timers_wf st" and d: "distinct (map id_n (notes_st st))"
    and A: "find (\<lambda>n. id_n n = a) (notes_st st) = Some A"
    and t: "u_title u = Some T'" "T' \<noteq> title A"
    and i: "i < length (notes_st st)" "id_n (notes_st st ! i) \<noteq> a"
  defines "n \<equiv> notes_st st ! i"
  defines "st' \<equiv> updater v now a u f st"
  defines "n' \<equiv> n\<lparr>content := replaceAll (''[['' @ title A @ '']]'') (''[['' @ T' @ '']]'') []
                                  (content n),
                  updatedAt := now\<rparr>"
  defines "hit \<equiv> title A \<noteq> [] \<and> T' \<noteq> [] \<and> occurs (''[['' @ title A @ '']]'') (content n)"
  shows "notes_st st' ! i = (if hit then n' else n)"
    and "pending st' (id_n n) =
           (if hit \<and> v then unrecorded st (id_n n) @ [n'] else pending st (id_n n))"
    and "unrecorded st' k = unrecorded st k"
    and "timers_wf st'"
proof -
  define U where "U = applyUpdates A u now"
  define mc where "mc = (case u_isFavorite u of None \<Rightarrow> False | Some b \<Rightarrow> Some b \<noteq> isFavorite A)"
  define st2 where "st2 = (if v \<and> (f \<or> mc) then writeFileToDisk U st else st)"
  let ?F = "refactorNote v now a True A U"
  have titleU: "title U = T'"
    using t(1) by (simp add: U_def applyUpdates_def)
  have st': "st' = (snd (mapWithState ?F (notes_st st) st2))
       \<lparr>notes_st := fst (mapWithState ?F (notes_st st) st2)\<rparr>"
    unfolding st'_def updater_found [OF A] Let_def
    using t(1,2) by (simp add: U_def mc_def st2_def split: prod.splits)
  have ok2: "timers_wf st2"
    using ok by (simp add: st2_def timers_wf_cong [of "writeFileToDisk U st" st])
  have p2: "pending st2 k = pending st k" for k
    by (simp add: st2_def pending_cong [of "writeFileToDisk U st" st])
  have u2: "unrecorded st2 k = unrecorded st k" for k
    by (simp add: st2_def unrecorded_cong [of "writeFileToDisk U st" st])
  have nin: "n \<in> set (notes_st st)"
    using i(1) by (simp add: n_def)
  have ida: "id_n n \<noteq> a"
    using i(2) by (simp add: n_def)
  have notes': "notes_st st' = map (\<lambda>m. fst (?F m st)) (notes_st st)"
    by (simp add: st' mapWithState_notes [of v now a True A U "notes_st st" st2 st])
  have F: "fst (?F n st) = (if hit then n' else n)"
  proof (cases hit)
    case True
    then have h: "title A \<noteq> []" "title U \<noteq> []"
        "occurs (''[['' @ title A @ '']]'') (content n)"
      by (simp_all add: hit_def titleU)
    from refactorNote_hit [OF ida h] show ?thesis
      using True by (simp add: n'_def titleU)
  next
    case False
    then have "\<not> (title A \<noteq> [] \<and> title U \<noteq> [] \<and>
                occurs (''[['' @ title A @ '']]'') (content n))"
      by (simp add: hit_def titleU)
    from refactorNote_miss [OF ida this] show ?thesis
      using False by simp
  qed
  show "notes_st st' ! i = (if hit then n' else n)"
    using i(1) F by (simp add: notes' n_def)
  have "pending st' (id_n n) = pending (snd (mapWithState ?F (notes_st st) st2)) (id_n n)"
    by (simp add: st' pending_def)
  also have "\<dots> = (if v \<and> id_n n \<noteq> a \<and> True \<and> title A \<noteq> [] \<and> title U \<noteq> [] \<and>
         occurs (''[['' @ title A @ '']]'') (content n)
      then unrecorded st2 (id_n n) @ [fst (?F n st)] else pending st2 (id_n n))"
    using ok2 d nin by (rule mapWithState_pending)
  also have "\<dots> = (if hit \<and> v then unrecorded st (id_n n) @ [n'] else pending st (id_n n))"
    using ida titleU p2 u2 F by (auto simp: hit_def)
  finally show "pending st' (id_n n) =
      (if hit \<and> v then unrecorded st (id_n n) @ [n'] else pending st (id_n n))" .
  have "unrecorded st' k = unrecorded (snd (mapWithState ?F (notes_st st) st2)) k"
    by (simp add: st' unrecorded_def)
  also have "\<dots> = unrecorded st2 k"
    using ok2 by (rule mapWithState_unrecorded)
  finally show "unrecorded st' k = unrecorded st k"
    by (simp add: u2)
  show "timers_wf st'"
    unfolding st'_def using ok by (rule timers_wf_updater)
qed

lemma runNext_update:
  assumes "queue st = QUpdate v a u f # qs"
  shows "runNext strict now st =
     (if strict
      then updater v now a u f ((updater v now a u f (st\<lparr>queue := qs\<rparr>))\<lparr>notes_st := notes_st st\<rparr>)
      else updater v now a u f (st\<lparr>queue := qs\<rparr>))"
  using assms by (simp add: runNext_def Let_def)

text \<open>The same, for the run of that updater from the queue, once or twice.\<close>

lemma runNext_rename_other:
  fixes now :: string and v f strict :: bool
  assumes ok: "timers_wf st" and q: "queue st = QUpdate v a u f # qs"
    and d: "distinct (map id_n (notes_st st))"
    and A: "find (\<lambda>n. id_n n = a) (notes_st st) = Some A"
    and t: "u_title u = Some T'" "T' \<noteq> title A"
    and i: "i < length (notes_st st)" "id_n (notes_st st ! i) \<noteq> a"
  defines "n \<equiv> notes_st st ! i"
  defines "st' \<equiv> runNext strict now st"
  defines "n' \<equiv> n\<lparr>content := replaceAll (''[['' @ title A @ '']]'') (''[['' @ T' @ '']]'') []
                                  (content n),
                  updatedAt := now\<rparr>"
  defines "hit \<equiv> title A \<noteq> [] \<and> T' \<noteq> [] \<and> occurs (''[['' @ title A @ '']]'') (content n)"
  shows "notes_st st' ! i = (if hit then n' else n)"
    and "pending st' (id_n n) =
           (if hit \<and> v then unrecorded st (id_n n) @ [n'] else pending st (id_n n))"
proof -
  define st0 where "st0 = st\<lparr>queue := qs\<rparr>"
  define s1 where "s1 = updater v now a u f st0"
  define s1' where "s1' = s1\<lparr>notes_st := notes_st st\<rparr>"
  have ok0: "timers_wf st0"
    using ok by (simp add: st0_def timers_wf_def)
  have n0: "notes_st st0 = notes_st st"
    by (simp add: st0_def)
  have p0: "pending st0 k = pending st k" "unrecorded st0 k = unrecorded st k" for k
    by (simp_all add: st0_def pending_def unrecorded_def)
  note one = updater_rename_other [of st0 a A u T' i v now f, unfolded n0,
      OF ok0 d A t i, folded s1_def n_def, folded n'_def hit_def, unfolded p0]
  have ok1: "timers_wf s1'"
    using one(4) by (simp add: s1'_def timers_wf_def)
  have n1: "notes_st s1' = notes_st st"
    by (simp add: s1'_def)
  have p1: "pending s1' k = pending s1 k" "unrecorded s1' k = unrecorded s1 k" for k
    by (simp_all add: s1'_def pending_def unrecorded_def)
  note two = updater_rename_other [of s1' a A u T' i v now f, unfolded n1,
      OF ok1 d A t i, folded n_def, folded n'_def hit_def, unfolded p1]
  have st': "st' = (if strict then updater v now a u f s1' else s1)"
    unfolding st'_def runNext_update [OF q] s1'_def s1_def st0_def by simp
  show "notes_st st' ! i = (if hit then n' else n)"
    using one(1) two(1) by (simp add: st')
  show "pending st' (id_n n) =
      (if hit \<and> v then unrecorded st (id_n n) @ [n'] else pending st (id_n n))"
  proof (cases strict)
    case False
    then show ?thesis
      using one(2) by (simp add: st')
  next
    case True
    then have "pending st' (id_n n) =
        (if hit \<and> v then unrecorded s1 (id_n n) @ [n'] else pending s1 (id_n n))"
      using two(2) by (simp add: st')
    also have "\<dots> = (if hit \<and> v then unrecorded st (id_n n) @ [n'] else pending st (id_n n))"
      unfolding one(3) one(2) by simp
    finally show ?thesis .
  qed
qed
section \<open>The rename example\<close>


lemma getSubstitution_plain:
  "CHR 0x24 \<notin> set t \<Longrightarrow> getSubstitution m b a t = t"
  by (induction m b a t rule: getSubstitution.induct) auto

lemma replaceAll_Nil: "replaceAll p t b [] = []"
  by (subst replaceAll.simps) simp

lemma replaceAll_match:
  "p \<noteq> [] \<Longrightarrow> prefix p s \<Longrightarrow>
   replaceAll p t b s =
     getSubstitution p b (drop (length p) s) t @ replaceAll p t (b @ p) (drop (length p) s)"
  by (subst replaceAll.simps) auto

lemma replaceAll_skip:
  "\<not> prefix p (c # cs) \<Longrightarrow> replaceAll p t b (c # cs) = c # replaceAll p t (b @ [c]) cs"
  by (subst replaceAll.simps) auto

lemma foo_match:
  "prefix ''[[Foo]]'' s \<Longrightarrow>
   replaceAll ''[[Foo]]'' ''[[Bar]]'' b s =
     ''[[Bar]]'' @ replaceAll ''[[Foo]]'' ''[[Bar]]'' (b @ ''[[Foo]]'') (drop 7 s)"
  using replaceAll_match [of "''[[Foo]]''" s "''[[Bar]]''" b]
    getSubstitution_plain [of "''[[Bar]]''" "''[[Foo]]''" b "drop 7 s"]
  by (simp add: eval_nat_numeral)

lemma foo_peel:
  assumes "prefix (d # q) (replaceAll ''[[Foo]]'' ''[[Bar]]'' b s)"
    and "\<And>x. \<not> prefix (d # q) (''[[Bar]]'' @ x)"
  shows "\<exists>cs. s = d # cs \<and> prefix q (replaceAll ''[[Foo]]'' ''[[Bar]]'' (b @ [d]) cs)"
proof (cases s)
  case Nil
  with assms(1) show ?thesis by (simp add: replaceAll_Nil)
next
  case (Cons c cs)
  have np: "\<not> prefix ''[[Foo]]'' s"
  proof
    assume "prefix ''[[Foo]]'' s"
    then have "prefix (d # q) (''[[Bar]]'' @ replaceAll ''[[Foo]]'' ''[[Bar]]'' (b @ ''[[Foo]]'') (drop 7 s))"
      using assms(1) by (simp only: foo_match)
    with assms(2) show False by blast
  qed
  then have "replaceAll ''[[Foo]]'' ''[[Bar]]'' b s = c # replaceAll ''[[Foo]]'' ''[[Bar]]'' (b @ [c]) cs"
    unfolding Cons by (rule replaceAll_skip)
  with assms(1) Cons show ?thesis by simp
qed

lemma foo_prefix_back:
  assumes "prefix ''[[Foo]]'' (replaceAll ''[[Foo]]'' ''[[Bar]]'' b s)"
  shows "prefix ''[[Foo]]'' s"
proof -
  from foo_peel [OF assms] obtain s1 b1 where 1: "s = CHR ''['' # s1"
    "prefix ''[Foo]]'' (replaceAll ''[[Foo]]'' ''[[Bar]]'' b1 s1)" by auto
  from foo_peel [OF 1(2)] obtain s2 b2 where 2: "s1 = CHR ''['' # s2"
    "prefix ''Foo]]'' (replaceAll ''[[Foo]]'' ''[[Bar]]'' b2 s2)" by auto
  from foo_peel [OF 2(2)] obtain s3 b3 where 3: "s2 = CHR ''F'' # s3"
    "prefix ''oo]]'' (replaceAll ''[[Foo]]'' ''[[Bar]]'' b3 s3)" by auto
  from foo_peel [OF 3(2)] obtain s4 b4 where 4: "s3 = CHR ''o'' # s4"
    "prefix ''o]]'' (replaceAll ''[[Foo]]'' ''[[Bar]]'' b4 s4)" by auto
  from foo_peel [OF 4(2)] obtain s5 b5 where 5: "s4 = CHR ''o'' # s5"
    "prefix '']]'' (replaceAll ''[[Foo]]'' ''[[Bar]]'' b5 s5)" by auto
  from foo_peel [OF 5(2)] obtain s6 b6 where 6: "s5 = CHR '']'' # s6"
    "prefix '']'' (replaceAll ''[[Foo]]'' ''[[Bar]]'' b6 s6)" by auto
  from foo_peel [OF 6(2)] obtain s7 where 7: "s6 = CHR '']'' # s7" by auto
  show ?thesis
    by (simp add: 1(1) 2(1) 3(1) 4(1) 5(1) 6(1) 7)
qed

lemma occurs_append_left: "occurs p s \<Longrightarrow> occurs p (x @ s)"
  by (induction x) auto

lemma foo_rewritten:
  "occurs ''[[Foo]]'' s \<Longrightarrow> occurs ''[[Bar]]'' (replaceAll ''[[Foo]]'' ''[[Bar]]'' b s)"
proof (induction s arbitrary: b)
  case Nil
  then show ?case by (simp add: replaceAll_Nil)
next
  case (Cons c cs)
  show ?case
  proof (cases "prefix ''[[Foo]]'' (c # cs)")
    case True
    show ?thesis
      unfolding foo_match [OF True] by simp
  next
    case False
    then have "occurs ''[[Foo]]'' cs" using Cons.prems by (simp only: occurs.simps) blast
    then have "occurs ''[[Bar]]'' (replaceAll ''[[Foo]]'' ''[[Bar]]'' (b @ [c]) cs)"
      by (rule Cons.IH)
    then show ?thesis
      unfolding replaceAll_skip [OF False] by simp
  qed
qed

lemma foo_gone: "\<not> occurs ''[[Foo]]'' (replaceAll ''[[Foo]]'' ''[[Bar]]'' b s)"
proof (induction s arbitrary: b rule: length_induct)
  case (1 s)
  show ?case
  proof (cases "prefix ''[[Foo]]'' s")
    case True
    then have "length (drop 7 s) < length s"
      by (cases s) auto
    then have "\<not> occurs ''[[Foo]]'' (replaceAll ''[[Foo]]'' ''[[Bar]]'' (b @ ''[[Foo]]'') (drop 7 s))"
      using 1 by blast
    then show ?thesis
      unfolding foo_match [OF True] by simp
  next
    case False
    show ?thesis
    proof (cases s)
      case Nil
      then show ?thesis by (simp add: replaceAll_Nil)
    next
      case (Cons c cs)
      have IH: "\<not> occurs ''[[Foo]]'' (replaceAll ''[[Foo]]'' ''[[Bar]]'' (b @ [c]) cs)"
        using 1 Cons by simp
      have eq: "replaceAll ''[[Foo]]'' ''[[Bar]]'' b s =
          c # replaceAll ''[[Foo]]'' ''[[Bar]]'' (b @ [c]) cs"
        using False unfolding Cons by (rule replaceAll_skip)
      have "\<not> prefix ''[[Foo]]'' (replaceAll ''[[Foo]]'' ''[[Bar]]'' b s)"
        using False foo_prefix_back by blast
      then show ?thesis
        using IH unfolding eq by simp
    qed
  qed
qed


subsection \<open>What the global replacement computes\<close>

lemma replaceAll_no_occurrence: "\<not> occurs p s \<Longrightarrow> replaceAll p t b s = s"
proof (induction s arbitrary: b)
  case Nil
  show ?case by (rule replaceAll_Nil)
next
  case (Cons c cs)
  then have "\<not> prefix p (c # cs)" "\<not> occurs p cs"
    by simp_all
  then show ?case
    using Cons.IH [of "b @ [c]"] by (simp add: replaceAll_skip)
qed

lemma replaceAll_first_occurrence:
  assumes "p \<noteq> []" "\<not> occurs p (x @ butlast p)"
  shows "replaceAll p t b (x @ p @ y) =
     x @ getSubstitution p (b @ x) y t @ replaceAll p t (b @ x @ p) y"
  using assms(2)
proof (induction x arbitrary: b)
  case Nil
  show ?case
    using replaceAll_match [OF assms(1), of "p @ y" t b] by simp
next
  case (Cons c x)
  have no: "\<not> prefix p (c # x @ butlast p)" "\<not> occurs p (x @ butlast p)"
    using Cons.prems by simp_all
  have "\<not> prefix p (c # x @ p @ y)"
  proof
    assume pre: "prefix p (c # x @ p @ y)"
    have "c # x @ p @ y = (c # x @ butlast p) @ (last p # y)"
      using assms(1) by (simp add: append_butlast_last_id [symmetric] del: append_butlast_last_id)
    then have "prefix (c # x @ butlast p) (c # x @ p @ y)"
      by (metis prefixI)
    moreover have "length p \<le> length (c # x @ butlast p)"
      using assms(1) by (cases p) simp_all
    ultimately have "prefix p (c # x @ butlast p)"
      using pre by (rule prefix_length_prefix [rotated])
    with no(1) show False ..
  qed
  then have "replaceAll p t b ((c # x) @ p @ y) = c # replaceAll p t (b @ [c]) (x @ p @ y)"
    by (simp add: replaceAll_skip)
  then show ?case
    using Cons.IH [OF no(2), of "b @ [c]"] by simp
qed

lemma occurs_iff: "occurs p s \<longleftrightarrow> (\<exists>x y. s = x @ p @ y)"
proof (induction s)
  case Nil
  show ?case by auto
next
  case (Cons c cs)
  show ?case
  proof
    assume "occurs p (c # cs)"
    then consider "prefix p (c # cs)" | "occurs p cs"
      by auto
    then show "\<exists>x y. c # cs = x @ p @ y"
    proof cases
      case 1
      then obtain y where "c # cs = p @ y"
        by (auto simp: prefix_def)
      then have "c # cs = [] @ p @ y"
        by simp
      then show ?thesis
        by blast
    next
      case 2
      then obtain x y where "cs = x @ p @ y"
        using Cons.IH by auto
      then have "c # cs = (c # x) @ p @ y"
        by simp
      then show ?thesis
        by blast
    qed
  next
    assume "\<exists>x y. c # cs = x @ p @ y"
    then obtain x y where e: "c # cs = x @ p @ y"
      by blast
    show "occurs p (c # cs)"
    proof (cases x)
      case Nil
      then have "prefix p (c # cs)"
        using e by (simp add: prefix_def)
      then show ?thesis by simp
    next
      case (Cons d x')
      then have "cs = x' @ p @ y"
        using e by simp
      then have "occurs p cs"
        using Cons.IH by blast
      then show ?thesis by simp
    qed
  qed
qed
section \<open>Rename and link rewrite\<close>

text \<open>
  Claim C4: take a state the application can reach in which the oldest queued updater is
  that of a call \<^verbatim>\<open>updateNote(a, u, forceSave)\<close> with the title \<open>Bar\<close> in \<open>u\<close>, whose
  notes have pairwise distinct identifiers, where A is the note found under the
  identifier \<open>a\<close>, titled \<open>Foo\<close>, and B is another note whose body contains \<open>[[Foo]]\<close>.
  When that updater runs, at once after the call or later, once or twice, it leaves at
  the place of B a note with the identifier of B whose body contains \<open>[[Bar]]\<close> and no
  longer contains \<open>[[Foo]]\<close>; and when a vault is connected a write carrying that
  rewritten note is scheduled for B: it is the last write pending for B, after those no
  longer recorded for B, and the only one when every pending timer was a recorded one.
\<close>

theorem rename_rewrites_links:
  assumes "reachable st" "queue st = QUpdate vaultHandle a u forceSave # qs"
    and "distinct (map id_n (notes_st st))"
    and "find (\<lambda>n. id_n n = a) (notes_st st) = Some A" "title A = ''Foo''"
    and "u_title u = Some ''Bar''"
    and "i < length (notes_st st)" "id_n (notes_st st ! i) \<noteq> a"
    and "occurs ''[[Foo]]'' (content (notes_st st ! i))"
  shows "let B = notes_st st ! i;
             st' = runNext strict now st;
             B' = notes_st st' ! i
         in occurs ''[[Bar]]'' (content B') \<and> \<not> occurs ''[[Foo]]'' (content B') \<and>
            id_n B' = id_n B \<and>
            (vaultHandle \<longrightarrow>
               pending st' (id_n B) = unrecorded st (id_n B) @ [B'] \<and>
               (timers_ok st \<longrightarrow> pending st' (id_n B) = [B']))"
proof -
  let ?B = "notes_st st ! i"
  let ?st' = "runNext strict now st"
  let ?B' = "?B\<lparr>content := replaceAll ''[[Foo]]'' ''[[Bar]]'' [] (content ?B), updatedAt := now\<rparr>"
  have ok: "timers_wf st"
    using assms(1) by (rule reachable_timers_wf)
  have t: "''Bar'' \<noteq> title A"
    by (simp add: assms(5))
  have hit: "title A \<noteq> [] \<and> ''Bar'' \<noteq> [] \<and> occurs (''[['' @ title A @ '']]'') (content ?B)"
    using assms(9) by (simp add: assms(5))
  note other = runNext_rename_other [OF ok assms(2,3,4,6) t assms(7,8), of strict now]
  have r: "notes_st ?st' ! i = ?B'"
    using other(1) hit by (simp add: assms(5))
  have p: "vaultHandle \<Longrightarrow> pending ?st' (id_n ?B) = unrecorded st (id_n ?B) @ [?B']"
    using other(2) hit by (simp add: assms(5))
  have 1: "occurs ''[[Bar]]'' (content ?B')"
    using foo_rewritten [OF assms(9)] by simp
  have 2: "\<not> occurs ''[[Foo]]'' (content ?B')"
    using foo_gone [of "[]" "content ?B"] by simp
  have 3: "vaultHandle \<longrightarrow>
             pending ?st' (id_n ?B) = unrecorded st (id_n ?B) @ [?B'] \<and>
             (timers_ok st \<longrightarrow> pending ?st' (id_n ?B) = [?B'])"
    using p by (simp add: timers_ok_unrecorded)
  have 4: "id_n ?B' = id_n ?B"
    by simp
  show ?thesis
    unfolding Let_def r using 1 2 3 4 by (intro conjI)
qed

theorem rename_rewrites_links_witness:
  "occurs ''[[Bar]]''
     (content (notes_st (runNext False ''t''
        (updateNote True ''A'' (titleUpdate ''Bar'') False rename_example)) ! 1)) \<and>
   \<not> occurs ''[[Foo]]''
     (content (notes_st (runNext False ''t''
        (updateNote True ''A'' (titleUpdate ''Bar'') False rename_example)) ! 1)) \<and>
   pending (runNext False ''t'' (updateNote True ''A'' (titleUpdate ''Bar'') False rename_example))
     ''B'' =
     [notes_st (runNext False ''t''
        (updateNote True ''A'' (titleUpdate ''Bar'') False rename_example)) ! 1]"
proof -
  let ?A = "mk_note ''A'' ''Foo'' ''''"
  let ?s = "updateNote True ''A'' (titleUpdate ''Bar'') False rename_example"
  have r: "reachable ?s"
    unfolding rename_example_def by (intro reachable.update reachable.start)
  have q: "queue ?s = QUpdate True ''A'' (titleUpdate ''Bar'') False # []"
    by (simp add: updateNote_def rename_example_def initialApp_def)
  have ns: "notes_st ?s = [?A, mk_note ''B'' ''Notes'' ''see [[Foo]]'']"
    by (simp add: updateNote_def rename_example_def initialApp_def)
  have d: "distinct (map id_n (notes_st ?s))"
    by (simp add: ns mk_note_def)
  have f: "find (\<lambda>n. id_n n = ''A'') (notes_st ?s) = Some ?A"
    by (simp add: ns mk_note_def)
  have t: "title ?A = ''Foo''"
    by (simp add: mk_note_def)
  have u: "u_title (titleUpdate ''Bar'') = Some ''Bar''"
    by (simp add: titleUpdate_def)
  have i: "1 < length (notes_st ?s)" "id_n (notes_st ?s ! 1) \<noteq> ''A''"
    by (simp_all add: ns mk_note_def)
  have o: "occurs ''[[Foo]]'' (content (notes_st ?s ! 1))"
    by (simp add: ns mk_note_def)
  have ok: "timers_ok ?s"
    by (simp add: timers_ok_def updateNote_def cancelPending_def rename_example_def
        initialApp_def)
  have b: "id_n (notes_st ?s ! 1) = ''B''"
    by (simp add: ns mk_note_def)
  from rename_rewrites_links [OF r q d f t u i o, of False "''t''", unfolded Let_def b] ok
  show ?thesis
    by blast
qed
section \<open>The rewrite matches exactly\<close>

text \<open>
  Claim C10, as worded, fails when a title is empty: the guard
  \<^verbatim>\<open>noteToUpdate.title && updatedNote.title\<close> skips the rewrite, so clearing the title of
  the note \<open>Foo\<close> leaves the marker \<open>[[Foo]]\<close> of another note as it is, although its text
  equals the old title character for character, and schedules no write.
\<close>

theorem rewrite_empty_title_counterexample:
  "occurs ''[[Foo]]'' (content (notes_st rename_example ! 1)) \<and>
   title (notes_st (runNext False ''t''
            (updateNote True ''A'' (titleUpdate '''') False rename_example)) ! 0) = '''' \<and>
   notes_st (runNext False ''t''
      (updateNote True ''A'' (titleUpdate '''') False rename_example)) ! 1 =
     notes_st rename_example ! 1 \<and>
   pending (runNext False ''t''
      (updateNote True ''A'' (titleUpdate '''') False rename_example)) ''B'' = []"
  by (simp add: rename_example_def initialApp_def updateNote_def setNotes_def cancelPending_def
      runNext_def updater_def refactorNote_def applyUpdates_def titleUpdate_def mk_note_def
      pending_def)

text \<open>
  Claim C10, amended: take a state the application can reach in which the oldest queued
  updater is that of a call that changes the title of the note found under \<open>a\<close> from \<open>T\<close>
  to a different title \<open>T'\<close>, and whose notes have pairwise distinct identifiers. When
  that updater runs, once or twice, every other note is treated as follows. If \<open>T\<close> and
  \<open>T'\<close> are both non-empty and the body contains the text \<open>[[T]]\<close>, character for
  character, the note is replaced by the one with the body rewritten, and with a vault
  connected a write carrying the rewritten note is scheduled for it (the last one
  pending for it, and the only one when every pending timer was a recorded one).
  Otherwise the note is left as it is and the writes pending for it are the same as
  before: in particular a marker that differs from \<open>T\<close> in letter case only is not
  rewritten and schedules nothing, although link extraction resolves it. The rewriting
  looks for \<open>[[T]]\<close> as a piece of the text. It
  leaves a text without \<open>[[T]]\<close> as it is, and in a text whose leftmost occurrence of
  \<open>[[T]]\<close> follows \<open>x\<close> it keeps \<open>x\<close>, puts the replacement text for that occurrence and
  goes on in the same way behind it; the replacement text is \<open>[[T']]\<close> when \<open>T'\<close> has no
  dollar sign.
\<close>

theorem rewrite_exact_match_only:
  assumes "reachable st" "queue st = QUpdate vaultHandle a u forceSave # qs"
    and "distinct (map id_n (notes_st st))"
    and "find (\<lambda>n. id_n n = a) (notes_st st) = Some A"
    and "u_title u = Some T'" "T' \<noteq> title A"
    and "i < length (notes_st st)" "id_n (notes_st st ! i) \<noteq> a"
  shows "let n = notes_st st ! i;
             st' = runNext strict now st;
             marker = ''[['' @ title A @ '']]'';
             tmpl = ''[['' @ T' @ '']]''
         in (if title A \<noteq> [] \<and> T' \<noteq> [] \<and> occurs marker (content n)
             then notes_st st' ! i =
                    n\<lparr>content := replaceAll marker tmpl [] (content n), updatedAt := now\<rparr> \<and>
                  (vaultHandle \<longrightarrow>
                     pending st' (id_n n) = unrecorded st (id_n n) @ [notes_st st' ! i] \<and>
                     (timers_ok st \<longrightarrow> pending st' (id_n n) = [notes_st st' ! i]))
             else notes_st st' ! i = n \<and> pending st' (id_n n) = pending st (id_n n)) \<and>
            (\<forall>s. occurs marker s \<longleftrightarrow> (\<exists>x y. s = x @ marker @ y)) \<and>
            (\<forall>b s. \<not> occurs marker s \<longrightarrow> replaceAll marker tmpl b s = s) \<and>
            (\<forall>b x y. \<not> occurs marker (x @ butlast marker) \<longrightarrow>
               replaceAll marker tmpl b (x @ marker @ y) =
                 x @ getSubstitution marker (b @ x) y tmpl @
                 replaceAll marker tmpl (b @ x @ marker) y) \<and>
            (CHR 0x24 \<notin> set T' \<longrightarrow> (\<forall>b y. getSubstitution marker b y tmpl = tmpl))"
proof -
  let ?n = "notes_st st ! i"
  let ?st' = "runNext strict now st"
  let ?m = "''[['' @ title A @ '']]''"
  let ?t = "''[['' @ T' @ '']]''"
  let ?hit = "title A \<noteq> [] \<and> T' \<noteq> [] \<and> occurs ?m (content ?n)"
  let ?n' = "?n\<lparr>content := replaceAll ?m ?t [] (content ?n), updatedAt := now\<rparr>"
  have ok: "timers_wf st"
    using assms(1) by (rule reachable_timers_wf)
  note other = runNext_rename_other [OF ok assms(2-8), of strict now]
  have 1: "if ?hit
      then notes_st ?st' ! i = ?n' \<and>
           (vaultHandle \<longrightarrow>
              pending ?st' (id_n ?n) = unrecorded st (id_n ?n) @ [notes_st ?st' ! i] \<and>
              (timers_ok st \<longrightarrow> pending ?st' (id_n ?n) = [notes_st ?st' ! i]))
      else notes_st ?st' ! i = ?n \<and> pending ?st' (id_n ?n) = pending st (id_n ?n)"
  proof (cases ?hit)
    case True
    then have "notes_st ?st' ! i = ?n'"
      "vaultHandle \<Longrightarrow> pending ?st' (id_n ?n) = unrecorded st (id_n ?n) @ [?n']"
      using other by simp_all
    then show ?thesis
      unfolding if_P [OF True] by (simp add: timers_ok_unrecorded)
  next
    case False
    then have "notes_st ?st' ! i = ?n" "pending ?st' (id_n ?n) = pending st (id_n ?n)"
      using other by auto
    then show ?thesis
      unfolding if_not_P [OF False] by simp
  qed
  have m: "?m \<noteq> []"
    by simp
  have 0: "\<forall>s. occurs ?m s \<longleftrightarrow> (\<exists>x y. s = x @ ?m @ y)"
    using occurs_iff [of ?m] by blast
  have 2: "\<forall>b s. \<not> occurs ?m s \<longrightarrow> replaceAll ?m ?t b s = s"
    by (simp add: replaceAll_no_occurrence)
  have 3: "\<forall>b x y. \<not> occurs ?m (x @ butlast ?m) \<longrightarrow>
      replaceAll ?m ?t b (x @ ?m @ y) =
        x @ getSubstitution ?m (b @ x) y ?t @ replaceAll ?m ?t (b @ x @ ?m) y"
    using replaceAll_first_occurrence [OF m] by blast
  have 4: "CHR 0x24 \<notin> set T' \<longrightarrow> (\<forall>b y. getSubstitution ?m b y ?t = ?t)"
    by (simp add: getSubstitution_plain)
  show ?thesis
    unfolding Let_def using 1 0 2 3 4 by (intro conjI)
qed

theorem rewrite_exact_match_only_witness:
  "notes_st (runNext False ''t''
      (updateNote True ''A'' (titleUpdate ''Bar'') True case_example)) ! 1 =
     notes_st case_example ! 1 \<and>
   pending (runNext False ''t''
      (updateNote True ''A'' (titleUpdate ''Bar'') True case_example)) ''B'' =
     pending (updateNote True ''A'' (titleUpdate ''Bar'') True case_example) ''B'' \<and>
   \<lparr>source = ''B'', target = ''A''\<rparr> \<in> set (extractLinks (notes_st case_example)) \<and>
   replaceAll ''[[Foo]]'' ''[[Bar]]'' [] ''see [[Foo]]'' = ''see [[Bar]]''"
proof -
  let ?A = "mk_note ''A'' ''Foo'' ''''"
  let ?s = "updateNote True ''A'' (titleUpdate ''Bar'') True case_example"
  have r: "reachable ?s"
    unfolding case_example_def by (intro reachable.update reachable.start)
  have q: "queue ?s = QUpdate True ''A'' (titleUpdate ''Bar'') True # []"
    by (simp add: updateNote_def case_example_def initialApp_def)
  have ns: "notes_st ?s = notes_st case_example"
    by (simp add: updateNote_def)
  have ce: "notes_st case_example = [?A, mk_note ''B'' ''Notes'' ''see [[foo]]'']"
    by (simp add: case_example_def initialApp_def)
  have d: "distinct (map id_n (notes_st ?s))"
    by (simp add: ns ce mk_note_def)
  have f: "find (\<lambda>n. id_n n = ''A'') (notes_st ?s) = Some ?A"
    by (simp add: ns ce mk_note_def)
  have u: "u_title (titleUpdate ''Bar'') = Some ''Bar''"
    by (simp add: titleUpdate_def)
  have t: "''Bar'' \<noteq> title ?A"
    by (simp add: mk_note_def)
  have i: "1 < length (notes_st ?s)" "id_n (notes_st ?s ! 1) \<noteq> ''A''"
    by (simp_all add: ns ce mk_note_def)
  have b: "id_n (notes_st case_example ! 1) = ''B''"
    by (simp add: ce mk_note_def)
  have o: "\<not> (title ?A \<noteq> [] \<and> ''Bar'' \<noteq> [] \<and>
              occurs (''[['' @ title ?A @ '']]'') (content (notes_st ?s ! 1)))"
    by (simp add: ns ce mk_note_def)
  have l: "\<lparr>source = ''B'', target = ''A''\<rparr> \<in> set (extractLinks (notes_st case_example))"
    by code_simp
  note w = rewrite_exact_match_only [OF r q d f u t i, of False "''t''", unfolded Let_def,
      THEN conjunct1]
  from w o have "notes_st (runNext False ''t'' ?s) ! 1 = notes_st ?s ! 1 \<and>
      pending (runNext False ''t'' ?s) (id_n (notes_st ?s ! 1)) = pending ?s (id_n (notes_st ?s ! 1))"
    by (simp only: if_False)
  then have first: "notes_st (runNext False ''t'' ?s) ! 1 = notes_st case_example ! 1 \<and>
      pending (runNext False ''t'' ?s) ''B'' = pending ?s ''B''"
    unfolding ns b .
  have m: "''[['' @ title ?A @ '']]'' = ''[[Foo]]''"
    by (simp add: mk_note_def)
  note eqs = rewrite_exact_match_only [OF r q d f u t i, of False "''t''", unfolded Let_def m,
      THEN conjunct2, THEN conjunct2]
  have e1: "replaceAll ''[[Foo]]'' ''[[Bar]]'' (''see '' @ ''[[Foo]]'') [] = []"
    using eqs [THEN conjunct1, rule_format, of "[]" "''see '' @ ''[[Foo]]''"] by simp
  have e2: "getSubstitution ''[[Foo]]'' ''see '' [] ''[[Bar]]'' = ''[[Bar]]''"
    using eqs [THEN conjunct2, THEN conjunct2, rule_format, of "''see ''" "[]"] by simp
  have e3: "replaceAll ''[[Foo]]'' ''[[Bar]]'' [] (''see '' @ ''[[Foo]]'' @ []) =
      ''see '' @ getSubstitution ''[[Foo]]'' ([] @ ''see '') [] ''[[Bar]]'' @
      replaceAll ''[[Foo]]'' ''[[Bar]]'' ([] @ ''see '' @ ''[[Foo]]'') []"
    using eqs [THEN conjunct2, THEN conjunct1, rule_format, of "''see ''" "[]" "[]"] by simp
  have last: "replaceAll ''[[Foo]]'' ''[[Bar]]'' [] ''see [[Foo]]'' = ''see [[Bar]]''"
    using e3 e1 e2 by simp
  show ?thesis
    using first l last by blast
qed
section \<open>The physics step: evaluation and the loop\<close>


lemmas physics_defs = updateNode_def repel_def attract_def n_sub_def REPULSION_def
  SPRING_LENGTH_def SPRING_STRENGTH_def DAMPING_def CENTER_FORCE_def mk_node_def Let_def
  signed_inf_def

lemma sqrt_100: "sqrt 100 = 10"
  by (rule real_sqrt_unique) simp_all

lemma sqrt_8281_16: "sqrt (8281 / 16) = 91 / 4"
  by (rule real_sqrt_unique) (simp_all add: power2_eq_square)

lemma physicsLoop_append: "\<exists>R. physicsLoop l w h done rest = done @ R \<and> length R = length rest"
proof (induction rest arbitrary: "done")
  case Nil
  show ?case by simp
next
  case (Cons n rest)
  obtain R where "physicsLoop l w h (done @ [updateNode (done @ n # rest) l w h n]) rest =
      (done @ [updateNode (done @ n # rest) l w h n]) @ R" "length R = length rest"
    using Cons.IH by blast
  then show ?case by simp
qed

lemma physicsLoop_length: "length (physicsLoop l w h done rest) = length done + length rest"
  using physicsLoop_append [of l w h "done" rest] by auto

lemma physicsLoop_take: "take (length done) (physicsLoop l w h done rest) = done"
  using physicsLoop_append [of l w h "done" rest] by auto

lemma physicsLoop_nth:
  "k < length rest \<Longrightarrow>
   physicsLoop l w h done rest ! (length done + k) =
     updateNode (take (length done + k) (physicsLoop l w h done rest) @ drop k rest) l w h (rest ! k)"
proof (induction rest arbitrary: "done" k)
  case Nil
  then show ?case by simp
next
  case (Cons n rest)
  let ?u = "updateNode (done @ n # rest) l w h n"
  let ?P = "physicsLoop l w h (done @ [?u]) rest"
  obtain R where P: "?P = done @ ?u # R"
    using physicsLoop_append [of l w h "done @ [?u]" rest] by auto
  show ?case
  proof (cases k)
    case 0
    have "take (length done) ?P = done" "?P ! length done = ?u"
      by (simp_all add: P)
    then show ?thesis
      using 0 by simp
  next
    case (Suc j)
    then have j: "j < length rest" using Cons.prems by simp
    have "?P ! (length (done @ [?u]) + j) =
        updateNode (take (length (done @ [?u]) + j) ?P @ drop j rest) l w h (rest ! j)"
      using j by (rule Cons.IH)
    then show ?thesis
      using Suc by simp
  qed
qed


section \<open>Order of iteration\<close>

text \<open>
  Claim C3 as stated fails: for two nodes ten units apart the second node, updated after
  the first has moved away, ends left of 413, where the synchronous update puts it right
  of 422.
\<close>

theorem sequential_step_counterexample:
  "n_lt (x_g (physicsStep [] (Fin 800) (Fin 600)
               [mk_node ''a'' 400 300 0, mk_node ''b'' 410 300 0] ! 1)) (Fin 413) \<and>
   n_lt (Fin 422) (x_g (syncStep [] (Fin 800) (Fin 600)
               [mk_node ''a'' 400 300 0, mk_node ''b'' 410 300 0] ! 1)) \<and>
   physicsStep [] (Fin 800) (Fin 600) [mk_node ''a'' 400 300 0, mk_node ''b'' 410 300 0] \<noteq>
   syncStep [] (Fin 800) (Fin 600) [mk_node ''a'' 400 300 0, mk_node ''b'' 410 300 0]"
proof -
  let ?a = "mk_node ''a'' 400 300 0" and ?b = "mk_node ''b'' 410 300 0"
  let ?a' = "\<lparr>id_g = ''a'', title_g = ''a'', x_g = Fin (1549 / 4), y_g = Fin 300,
              vx_g = Fin (- (51 / 4)), vy_g = Fin 0\<rparr>"
  have a: "updateNode [?a, ?b] [] (Fin 800) (Fin 600) ?a = ?a'"
    by (simp add: physics_defs sqrt_100)
  have b_seq: "x_g (updateNode [?a', ?b] [] (Fin 800) (Fin 600) ?b) =
      Fin (410 + (24000 / 8281 - 1 / 20) * (85 / 100))"
    by (simp add: physics_defs sqrt_8281_16)
  have b_sync: "x_g (updateNode [?a, ?b] [] (Fin 800) (Fin 600) ?b) = Fin (169083 / 400)"
    by (simp add: physics_defs sqrt_100)
  have seq: "x_g (physicsStep [] (Fin 800) (Fin 600) [?a, ?b] ! 1) =
      Fin (410 + (24000 / 8281 - 1 / 20) * (85 / 100))"
    by (simp add: physicsStep_def a b_seq)
  have sync: "x_g (syncStep [] (Fin 800) (Fin 600) [?a, ?b] ! 1) = Fin (169083 / 400)"
    by (simp add: syncStep_def b_sync)
  have 1: "n_lt (x_g (physicsStep [] (Fin 800) (Fin 600) [?a, ?b] ! 1)) (Fin 413)"
    unfolding seq by simp
  have 2: "n_lt (Fin 422) (x_g (syncStep [] (Fin 800) (Fin 600) [?a, ?b] ! 1))"
    unfolding sync by simp
  have "x_g (physicsStep [] (Fin 800) (Fin 600) [?a, ?b] ! 1) \<noteq>
        x_g (syncStep [] (Fin 800) (Fin 600) [?a, ?b] ! 1)"
    unfolding seq sync by simp
  then have 3: "physicsStep [] (Fin 800) (Fin 600) [?a, ?b] \<noteq> syncStep [] (Fin 800) (Fin 600) [?a, ?b]"
    by metis
  from 1 2 3 show ?thesis by (intro conjI)
qed

text \<open>
  Claim C3, amended: with a non-zero viewport, one simulation step keeps the number of
  nodes and updates them one after another in iteration order; the node at place \<open>k\<close> is
  updated from the array in which the nodes before it already have their new positions
  and velocities and the nodes from \<open>k\<close> on still have their old ones. The first node
  therefore gets the synchronous update; the result for the others depends on the order
  of iteration.
\<close>

theorem sequential_step_characterisation:
  assumes "truthy_num width" "truthy_num height"
  shows "length (physicsStep links width height nodes) = length nodes \<and>
    (\<forall>k < length nodes.
       physicsStep links width height nodes ! k =
         updateNode (take k (physicsStep links width height nodes) @ drop k nodes)
           links width height (nodes ! k)) \<and>
    (nodes \<noteq> [] \<longrightarrow>
       physicsStep links width height nodes ! 0 = syncStep links width height nodes ! 0)"
proof -
  have s: "physicsStep links width height nodes = physicsLoop links width height [] nodes"
    using assms by (simp add: physicsStep_def)
  have 1: "length (physicsStep links width height nodes) = length nodes"
    unfolding s by (simp add: physicsLoop_length)
  have 2: "physicsStep links width height nodes ! k =
         updateNode (take k (physicsStep links width height nodes) @ drop k nodes)
           links width height (nodes ! k)" if "k < length nodes" for k
    unfolding s using physicsLoop_nth [OF that, of links width height "[]"] by simp
  have 3: "physicsStep links width height nodes ! 0 = syncStep links width height nodes ! 0"
    if "nodes \<noteq> []"
  proof -
    have "0 < length nodes" using that by simp
    from 2 [OF this] show ?thesis
      using assms that by (simp add: syncStep_def nth_map)
  qed
  from 1 2 3 show ?thesis by blast
qed

theorem sequential_step_characterisation_witness:
  "physicsStep [] (Fin 800) (Fin 600) [mk_node ''a'' 400 300 0, mk_node ''b'' 410 300 0] ! 0 =
   syncStep [] (Fin 800) (Fin 600) [mk_node ''a'' 400 300 0, mk_node ''b'' 410 300 0] ! 0"
proof -
  have t: "truthy_num (Fin 800)" "truthy_num (Fin 600)"
    by simp_all
  have n: "[mk_node ''a'' 400 300 0, mk_node ''b'' 410 300 0] \<noteq> []"
    by simp
  from sequential_step_characterisation [OF t, of "[]" "[mk_node ''a'' 400 300 0, mk_node ''b'' 410 300 0]"] n
  show ?thesis by blast
qed

section \<open>The spring force at zero distance\<close>


text \<open>
  Claim C5, that the attraction term divides by no zero and gives a force that is not
  \<^verbatim>\<open>NaN\<close> when the two ends of a link coincide, does not hold of the code. For two
  linked nodes at the same position the
  attraction term computes the distance 0 and divides the zero offsets by it: the force
  on both nodes is \<^verbatim>\<open>NaN\<close>, and so are their positions and velocities after the step.
  The repulsion term just above guards the same division with \<^verbatim>\<open>|| 1\<close>.
\<close>

theorem spring_force_zero_distance_nan:
  "physicsStep [\<lparr>source = ''a'', target = ''b''\<rparr>] (Fin 800) (Fin 600)
     [mk_node ''a'' 100 100 0, mk_node ''b'' 100 100 0] =
   [\<lparr>id_g = ''a'', title_g = ''a'', x_g = NaN, y_g = NaN, vx_g = NaN, vy_g = NaN\<rparr>,
    \<lparr>id_g = ''b'', title_g = ''b'', x_g = NaN, y_g = NaN, vx_g = NaN, vy_g = NaN\<rparr>]"
proof -
  let ?l = "[\<lparr>source = ''a'', target = ''b''\<rparr>]"
  let ?a = "mk_node ''a'' 100 100 0" and ?b = "mk_node ''b'' 100 100 0"
  let ?a' = "\<lparr>id_g = ''a'', title_g = ''a'', x_g = NaN, y_g = NaN, vx_g = NaN, vy_g = NaN\<rparr>"
  let ?b' = "\<lparr>id_g = ''b'', title_g = ''b'', x_g = NaN, y_g = NaN, vx_g = NaN, vy_g = NaN\<rparr>"
  have a: "updateNode [?a, ?b] ?l (Fin 800) (Fin 600) ?a = ?a'"
    by (simp add: physics_defs)
  have b: "updateNode [?a', ?b] ?l (Fin 800) (Fin 600) ?b = ?b'"
    by (simp add: physics_defs)
  show ?thesis
    by (simp add: physicsStep_def a b)
qed

theorem spring_force_zero_distance_nan_witness:
  "x_g (physicsStep [\<lparr>source = ''a'', target = ''b''\<rparr>] (Fin 800) (Fin 600)
          [mk_node ''a'' 100 100 0, mk_node ''b'' 100 100 0] ! 0) = NaN \<and>
   x_g (physicsStep [\<lparr>source = ''a'', target = ''b''\<rparr>] (Fin 800) (Fin 600)
          [mk_node ''a'' 100 100 0, mk_node ''b'' 100 100 0] ! 1) = NaN"
  unfolding spring_force_zero_distance_nan by simp

section \<open>Repulsion and the clamp\<close>

text \<open>
  Claim C7 as stated fails: two nodes ten units apart, moving towards each other, are at
  the same position after one step with no link.
\<close>

theorem repulsion_coincidence_counterexample:
  "x_g (mk_node ''a'' 390 300 (299 / 20)) \<noteq> x_g (mk_node ''b'' 400 300 (- (455 / 17))) \<and>
   physicsStep [] (Fin 800) (Fin 600)
     [mk_node ''a'' 390 300 (299 / 20), mk_node ''b'' 400 300 (- (455 / 17))] =
   [mk_node ''a'' 390 300 0, mk_node ''b'' 390 300 (- 10)]"
proof -
  let ?a = "mk_node ''a'' 390 300 (299 / 20)" and ?b = "mk_node ''b'' 400 300 (- (455 / 17))"
  have a: "updateNode [?a, ?b] [] (Fin 800) (Fin 600) ?a = mk_node ''a'' 390 300 0"
    by (simp add: physics_defs sqrt_100)
  have b: "updateNode [mk_node ''a'' 390 300 0, ?b] [] (Fin 800) (Fin 600) ?b =
      mk_node ''b'' 390 300 (- 10)"
    by (simp add: physics_defs sqrt_100)
  have "x_g ?a \<noteq> x_g ?b"
    by (simp add: mk_node_def)
  then show ?thesis
    by (simp add: physicsStep_def a b)
qed

lemma n_add_zero: "n_add a (Fin 0) = a"
  by (cases a) simp_all

lemma repel_coincident:
  assumes "x_g node = Fin px" "y_g node = Fin py" "x_g other = Fin px" "y_g other = Fin py"
  shows "repel node f other = f"
proof (cases "id_g node = id_g other")
  case True
  then show ?thesis by (simp add: repel_def)
next
  case False
  have d: "n_sub (x_g node) (x_g other) = Fin 0" "n_sub (y_g node) (y_g other) = Fin 0"
    by (simp_all add: assms n_sub_def)
  have s: "n_add (n_mul (Fin 0) (Fin 0)) (n_mul (Fin 0) (Fin 0)) = Fin 0"
    by simp
  have q: "(if truthy_num (Fin 0) then Fin 0 else Fin 1) = Fin 1"
    by simp
  have t: "n_mul (n_div (Fin 0) (n_sqrt (Fin 1))) (n_div REPULSION (Fin 1)) = Fin 0"
    by (simp add: REPULSION_def)
  show ?thesis
    unfolding repel_def Let_def d s q t n_add_zero using False by simp
qed

text \<open>
  Claim C7, amended: the clamp does not keep nodes apart; what it does is to keep the
  repulsion term defined when two nodes are at the same position. For a node and any
  number of other nodes at the same finite position, the squared distance is zero, the
  clamp puts 1 in its place, and the repulsion adds nothing to the force accumulated so
  far, whatever that force is: no division by zero and no \<^verbatim>\<open>NaN\<close> comes from the
  coincidence. (Each operation involved, \<open>x - x\<close>, \<open>0 * 0 + 0 * 0\<close>, \<open>0 || 1\<close>, the
  square root of 1, \<open>1500 / 1\<close>, \<open>0 / 1\<close>, \<open>0 * 1500\<close> and adding zero, is exact for
  doubles.) Nodes at distinct positions can come to coincide, as shown above.
\<close>

theorem repulsion_clamp_at_coincidence:
  assumes "x_g node = Fin px" "y_g node = Fin py"
    and "list_all (\<lambda>other. x_g other = Fin px \<and> y_g other = Fin py) others"
  shows "foldl (repel node) f others = f"
  using assms(3)
proof (induction others)
  case Nil
  show ?case by simp
next
  case (Cons other others)
  then have "repel node f other = f"
    using assms(1,2) by (simp add: repel_coincident)
  then show ?case
    using Cons by simp
qed

theorem repulsion_clamp_at_coincidence_witness:
  "repel (mk_node ''a'' 390 300 0) (Fin 0, Fin 0) (mk_node ''b'' 390 300 (- 10)) = (Fin 0, Fin 0)"
proof -
  let ?a = "mk_node ''a'' 390 300 0" and ?b = "mk_node ''b'' 390 300 (- 10)"
  have p: "x_g ?a = Fin 390" "y_g ?a = Fin 300"
    by (simp_all add: mk_node_def)
  have o: "list_all (\<lambda>other. x_g other = Fin 390 \<and> y_g other = Fin 300) [?b]"
    by (simp add: mk_node_def)
  from repulsion_clamp_at_coincidence [OF p o, of "(Fin 0, Fin 0)"] show ?thesis
    by simp
qed
end
